theory Spec2Isabelle
  imports Complex_Main
begin

section \<open>The stack iterator of \<^verbatim>\<open>lib/main.js\<close>\<close>

text \<open>
  \<^verbatim>\<open>nditerStacks( x, dims[, options] )\<close> validates its arguments, splits the dimensions of
  \<^verbatim>\<open>x\<close> into the stacked ones (\<^verbatim>\<open>dims\<close>) and the remaining ones, and returns an object whose
  \<^verbatim>\<open>next\<close>, \<^verbatim>\<open>return\<close> and \<^verbatim>\<open>Symbol.iterator\<close> methods close over the local variables of the
  call. The model below keeps those variables in a record, turns every \<^verbatim>\<open>throw\<close> into a
  value of a sum type, and writes the loops as recursive functions.
\<close>

subsection \<open>Arguments and errors\<close>

text \<open>
  Of an ndarray the function reads the shape (\<^verbatim>\<open>getShape( x )\<close>) and the read-only flag
  (\<^verbatim>\<open>isReadOnly( x )\<close>); both are fields of the record.
\<close>

record ndarray =
  getShape :: "nat list"
  isReadOnly :: bool

datatype jsvalue = JBool bool | JInt int | JOther

text \<open>
  The three arguments as JavaScript values: a first argument that is or is not ndarray-like,
  a second that is or is not an array (of arbitrary elements), and a third that is or is not
  a plain object (its own properties as an association list). A call with two arguments has
  no third one (\<^verbatim>\<open>arguments.length > 2\<close> is false).
\<close>

datatype arg1 = NotNdarray | Ndarray ndarray
datatype arg2 = NotArray | JSArray "jsvalue list"
datatype arg3 = NotPlainObject | PlainObject "(string \<times> jsvalue) list"

text \<open>
  One constructor for each \<^verbatim>\<open>throw\<close> of \<^verbatim>\<open>main.js\<close>, in the order of the file, followed by the
  exceptions of the helpers called with mode \<^verbatim>\<open>'throw'\<close> or in strict mode.
\<close>

datatype error =
    NotNdarrayError
  | NotIntegerArrayError
  | OptionsTypeError
  | ReadonlyOptionTypeError
  | ReadOnlyWriteError
  | InsufficientDimsError
  | DimRangeError
  | OrderingError
  | UniquenessError
  | TakeRangeError
  | PutRangeError
  | PutBroadcastError
  | NullIndexError
  | MultiSliceTypeError
  | SliceDimsError
  | SliceBoundsError

text \<open>
  The entries of \<^verbatim>\<open>idx\<close> and \<^verbatim>\<open>ibuf\<close>: \<^verbatim>\<open>null\<close>, a non-negative integer, or the \<^verbatim>\<open>NaN\<close> that a
  remainder by zero produces.
\<close>

datatype cell = Null | Num nat | NaNc

text \<open>
  The counter bound \<^verbatim>\<open>N\<close> is a JavaScript number obtained by repeated division: a finite
  value (an exact rational here; the quotients that arise are integers, which a double
  represents exactly below \<open>2^53\<close>), \<^verbatim>\<open>Infinity\<close>, or \<^verbatim>\<open>NaN\<close> (from \<^verbatim>\<open>0/0\<close>).
\<close>

datatype jsnum = Fin rat | PosInf | NaN

text \<open>\<^verbatim>\<open>N / s\<close> for a numerator that is never negative and a shape entry \<open>s\<close>.\<close>

fun jsdiv :: "jsnum \<Rightarrow> nat \<Rightarrow> jsnum" where
  "jsdiv NaN s = NaN"
| "jsdiv PosInf s = PosInf"
| "jsdiv (Fin q) s =
     (if s = 0 then (if q = 0 then NaN else PosInf) else Fin (q / of_nat s))"

text \<open>\<^verbatim>\<open>i >= N\<close>: false whenever \<^verbatim>\<open>N\<close> is \<^verbatim>\<open>NaN\<close> or \<^verbatim>\<open>Infinity\<close>.\<close>

fun js_ge :: "int \<Rightarrow> jsnum \<Rightarrow> bool" where
  "js_ge k (Fin q) = (q \<le> of_int k)"
| "js_ge k PosInf = False"
| "js_ge k NaN = False"

subsection \<open>Helpers of the standard library, as the call sites use them\<close>

text \<open>
  None of the helpers is defined in \<^verbatim>\<open>lib/main.js\<close>; each is a package of the standard
  library and is modelled by what it does for the arguments that \<^verbatim>\<open>main.js\<close> hands to it.

  \<^verbatim>\<open>isIntegerArray.primitives\<close>: true for an array-like value of positive length all of whose
  elements are primitive integers. The predicate is built by the library's array-like
  function template, which returns \<^verbatim>\<open>false\<close> for a value of length zero.
\<close>

fun isIntegerArray :: "arg2 \<Rightarrow> bool" where
  "isIntegerArray NotArray = False"
| "isIntegerArray (JSArray vs) = (vs \<noteq> [] \<and> list_all (\<lambda>v. case v of JInt _ \<Rightarrow> True | _ \<Rightarrow> False) vs)"

text \<open>The integers of an array that passed \<^const>\<open>isIntegerArray\<close> (\<^verbatim>\<open>copy( dims )\<close>).\<close>

fun copy_ints :: "arg2 \<Rightarrow> int list" where
  "copy_ints NotArray = []"
| "copy_ints (JSArray vs) = concat (map (\<lambda>v. case v of JInt k \<Rightarrow> [k] | _ \<Rightarrow> []) vs)"

text \<open>
  \<^verbatim>\<open>normalizeIndex( idx, max )\<close>: a negative index counts from \<^verbatim>\<open>max+1\<close>; the result is \<^verbatim>\<open>-1\<close>
  when the index lies outside \<open>[0, max]\<close>.
\<close>

definition normalizeIndex :: "int \<Rightarrow> int \<Rightarrow> int" where
  "normalizeIndex k mx =
     (if k < 0 then (let k' = k + mx + 1 in if k' < 0 then - 1 else k')
      else if k > mx then - 1 else k)"

text \<open>\<^verbatim>\<open>numel( shape )\<close>: the product of the extents, and \<^verbatim>\<open>0\<close> for an empty shape.\<close>

definition numel :: "nat list \<Rightarrow> nat" where
  "numel shp = (if shp = [] then 0 else prod_list shp)"

text \<open>
  \<^verbatim>\<open>take( x, indices, 'throw' )\<close>: the elements of \<^verbatim>\<open>x\<close> at the given indices; an index beyond
  the last element raises.
\<close>

fun take_throw :: "'a list \<Rightarrow> nat list \<Rightarrow> error + 'a list" where
  "take_throw xs [] = Inr []"
| "take_throw xs (k # ks) =
     (if k < length xs
      then (case take_throw xs ks of Inl e \<Rightarrow> Inl e | Inr out \<Rightarrow> Inr (xs ! k # out))
      else Inl TakeRangeError)"

text \<open>
  \<^verbatim>\<open>put( x, indices, values, 'throw' )\<close>: writes \<^verbatim>\<open>values[k]\<close> at \<^verbatim>\<open>x[indices[k]]\<close>; a single value
  is broadcast, any other length mismatch raises, and so does an index beyond the last
  element.
\<close>

fun put_all :: "'a list \<Rightarrow> nat list \<Rightarrow> 'a list \<Rightarrow> error + 'a list" where
  "put_all xs [] vs = Inr xs"
| "put_all xs (k # ks) [] = Inr xs"
| "put_all xs (k # ks) (v # vs) =
     (if k < length xs then put_all (xs[k := v]) ks vs else Inl PutRangeError)"

definition put_throw :: "'a list \<Rightarrow> nat list \<Rightarrow> 'a list \<Rightarrow> error + 'a list" where
  "put_throw xs ks vs =
     (if length vs = 1 then put_all xs ks (replicate (length ks) (vs ! 0))
      else if length vs = length ks then put_all xs ks vs
      else Inl PutBroadcastError)"

text \<open>
  \<^verbatim>\<open>nextCartesianIndex( shape, 'row-major', idx, -1, idx )\<close>: \<^verbatim>\<open>null\<close> for an empty shape;
  otherwise, from the last dimension leftwards, \<^verbatim>\<open>j = ( idx[i] + 1 ) % shape[i]\<close> is stored at
  position \<^verbatim>\<open>i\<close> and the loop stops at the first \<^verbatim>\<open>j > 0\<close>. Input and output are the same
  array, of the length of the shape. In the sum \<^verbatim>\<open>null\<close> counts as \<^verbatim>\<open>0\<close>; a remainder by zero is
  \<^verbatim>\<open>NaN\<close>, which is not greater than zero.
\<close>

fun inc_mod :: "cell \<Rightarrow> nat \<Rightarrow> cell" where
  "inc_mod NaNc s = NaNc"
| "inc_mod Null s = (if s = 0 then NaNc else Num (1 mod s))"
| "inc_mod (Num n) s = (if s = 0 then NaNc else Num ((n + 1) mod s))"

fun positive :: "cell \<Rightarrow> bool" where
  "positive (Num n) = (0 < n)"
| "positive _ = False"

fun carry :: "nat list \<Rightarrow> cell list \<Rightarrow> nat \<Rightarrow> cell list" where
  "carry shp out 0 = out"
| "carry shp out (Suc k) =
     (let j = inc_mod (out ! k) (shp ! k); out' = out[k := j]
      in if positive j then out' else carry shp out' k)"

definition nextCartesianIndex :: "nat list \<Rightarrow> cell list \<Rightarrow> cell list option" where
  "nextCartesianIndex shp ix = (if shp = [] then None else Some (carry shp ix (length shp)))"

text \<open>
  \<^verbatim>\<open>args2multislice( idx )\<close>: a multi-slice holding a copy of the entries, each of which has
  to be an integer or \<^verbatim>\<open>null\<close>. In the result \<open>None\<close> selects the full range of a dimension and
  \<open>Some k\<close> fixes it at index \<open>k\<close>.
\<close>

fun slice_arg :: "cell \<Rightarrow> error + nat option" where
  "slice_arg Null = Inr None"
| "slice_arg (Num k) = Inr (Some k)"
| "slice_arg NaNc = Inl MultiSliceTypeError"

fun args2multislice :: "cell list \<Rightarrow> error + nat option list" where
  "args2multislice [] = Inr []"
| "args2multislice (c # cs) =
     (case slice_arg c of Inl e \<Rightarrow> Inl e
      | Inr a \<Rightarrow> (case args2multislice cs of Inl e \<Rightarrow> Inl e | Inr as \<Rightarrow> Inr (a # as)))"

text \<open>
  \<^verbatim>\<open>slice( x, s, true, writable )\<close>: in strict mode the number of slice dimensions has to be
  the number of dimensions of \<^verbatim>\<open>x\<close> and every fixed index has to lie within its extent. The
  view records the array it is a window of, the slice that selects it, its shape (the
  extents of the dimensions selected in full) and whether it can be written.
\<close>

record view =
  view_of :: ndarray
  view_slice :: "nat option list"
  view_shape :: "nat list"
  view_writable :: bool

fun in_bounds :: "nat option \<Rightarrow> nat \<Rightarrow> bool" where
  "in_bounds None e = True"
| "in_bounds (Some k) e = (k < e)"

definition slice :: "ndarray \<Rightarrow> nat option list \<Rightarrow> bool \<Rightarrow> error + view" where
  "slice x s writable =
     (if length s \<noteq> length (getShape x) then Inl SliceDimsError
      else if \<not> list_all2 in_bounds s (getShape x) then Inl SliceBoundsError
      else Inr \<lparr>view_of = x, view_slice = s,
                view_shape = map snd (filter (\<lambda>(a, e). a = None) (zip s (getShape x))),
                view_writable = writable\<rparr>)"

subsection \<open>Construction\<close>

text \<open>
  The variables that \<^verbatim>\<open>next\<close>, \<^verbatim>\<open>return\<close> and the factory close over: the array, the
  normalized copy of \<^verbatim>\<open>dims\<close>, \<^verbatim>\<open>opts.writable\<close>, \<^verbatim>\<open>N\<close>, \<^verbatim>\<open>FLG\<close> (\<^verbatim>\<open>undefined\<close> reads as false),
  \<^verbatim>\<open>idx\<close>, \<^verbatim>\<open>indices\<close>, \<^verbatim>\<open>sh\<close>, \<^verbatim>\<open>ibuf\<close> and the counter \<^verbatim>\<open>i\<close>. The counter is an
  integer without bound here; a double counts exactly up to \<open>2^53\<close>.
\<close>

record iterator =
  it_x :: ndarray
  it_dims :: "nat list"
  it_writable :: bool
  it_N :: jsnum
  it_FLG :: bool
  it_idx :: "cell list"
  it_indices :: "nat list"
  it_sh :: "nat list"
  it_ibuf :: "cell list"
  it_i :: int

text \<open>
  Lines 111 to 128: the options. The result is \<^verbatim>\<open>opts.writable\<close>. Only an own property
  \<^verbatim>\<open>readonly\<close> is looked at.
\<close>

definition check_options :: "ndarray \<Rightarrow> arg3 option \<Rightarrow> error + bool" where
  "check_options x options =
     (case options of
        None \<Rightarrow> Inr False
      | Some NotPlainObject \<Rightarrow> Inl OptionsTypeError
      | Some (PlainObject props) \<Rightarrow>
          (case map_of props ''readonly'' of
             None \<Rightarrow> Inr False
           | Some (JBool b) \<Rightarrow>
               (if \<not> b \<and> isReadOnly x then Inl ReadOnlyWriteError else Inr (\<not> b))
           | Some _ \<Rightarrow> Inl ReadonlyOptionTypeError))"

text \<open>Lines 142 to 148: each index is normalized against \<^verbatim>\<open>ndims-1\<close>; \<^verbatim>\<open>-1\<close> raises.\<close>

fun normalize_dims :: "int list \<Rightarrow> nat \<Rightarrow> error + nat list" where
  "normalize_dims [] ndims = Inr []"
| "normalize_dims (d # ds) ndims =
     (let d' = normalizeIndex d (int ndims - 1)
      in if d' = - 1 then Inl DimRangeError
         else (case normalize_dims ds ndims of
                 Inl e \<Rightarrow> Inl e
               | Inr ds' \<Rightarrow> Inr (nat d' # ds')))"

text \<open>Lines 155 to 159: is there an \<^verbatim>\<open>i\<close> with \<^verbatim>\<open>dims[i] > dims[i+1]\<close>?\<close>

fun descends :: "nat list \<Rightarrow> bool" where
  "descends (a # b # ds) = (a > b \<or> descends (b # ds))"
| "descends _ = False"

text \<open>
  Lines 161 to 168: \<^verbatim>\<open>i\<close> and \<^verbatim>\<open>j\<close> both start at 1; equal neighbours raise, otherwise
  \<^verbatim>\<open>dims[j] = dims[i]\<close> is written.
\<close>

function unique_loop :: "nat list \<Rightarrow> nat \<Rightarrow> nat \<Rightarrow> error + nat list" where
  "unique_loop ds k j =
     (if k < length ds
      then (if ds ! k = ds ! (k - 1) then Inl UniquenessError
            else unique_loop (ds[j := ds ! k]) (k + 1) (j + 1))
      else Inr ds)"
  by pat_completeness auto
termination
  by (relation "measure (\<lambda>(ds, k, j). length ds - k)") auto

declare unique_loop.simps [simp del]

text \<open>
  Lines 181 to 189: \<^verbatim>\<open>i\<close> runs over the dimensions and \<^verbatim>\<open>j\<close> over \<^verbatim>\<open>dims\<close>; a dimension equal to
  \<^verbatim>\<open>dims[j]\<close> is skipped, every other one is pushed. Past the end of \<^verbatim>\<open>dims\<close> the comparison
  is with \<^verbatim>\<open>undefined\<close> and fails.
\<close>

function free_loop :: "nat list \<Rightarrow> nat \<Rightarrow> nat \<Rightarrow> nat \<Rightarrow> nat list \<Rightarrow> nat list" where
  "free_loop ds ndims k j acc =
     (if k < ndims
      then (if j < length ds \<and> k = ds ! j then free_loop ds ndims (k + 1) (j + 1) acc
            else free_loop ds ndims (k + 1) j (acc @ [k]))
      else acc)"
  by pat_completeness auto
termination
  by (relation "measure (\<lambda>(ds, ndims, k, j, acc). ndims - k)") auto

declare free_loop.simps [simp del]

text \<open>
  Lines 129 to 195. The entries of the normalized \<^verbatim>\<open>dims\<close> are below \<^verbatim>\<open>ndims\<close>, so
  \<^verbatim>\<open>shape[ dims[i] ]\<close> and \<^verbatim>\<open>idx[ dims[i] ]\<close> are within the arrays; a read beyond the shape
  would give \<^verbatim>\<open>undefined\<close> and a quotient \<^verbatim>\<open>NaN\<close>.
\<close>

definition setup_iterator :: "ndarray \<Rightarrow> int list \<Rightarrow> bool \<Rightarrow> error + iterator" where
  "setup_iterator x dims0 writable =
     (let shp = getShape x; ndims = length shp; M = length dims0
      in if ndims \<le> M then Inl InsufficientDimsError
         else (case normalize_dims dims0 ndims of
           Inl e \<Rightarrow> Inl e
         | Inr dims1 \<Rightarrow>
             (let N0 = numel shp; FLG = (N0 = 0)
              in if descends dims1 then Inl OrderingError
                 else (case unique_loop dims1 1 1 of
                   Inl e \<Rightarrow> Inl e
                 | Inr dims2 \<Rightarrow>
                     (let N1 = fold (\<lambda>d n. if d < ndims then jsdiv n (shp ! d) else NaN)
                                 dims2 (Fin (of_nat N0));
                          idx0 = fold (\<lambda>d ix. ix[d := Null]) dims2 (replicate ndims (Num 0));
                          inds = free_loop dims2 ndims 0 0 []
                      in (case take_throw shp inds of
                            Inl e \<Rightarrow> Inl e
                          | Inr sh0 \<Rightarrow>
                              (case take_throw idx0 inds of
                                 Inl e \<Rightarrow> Inl e
                               | Inr ibuf0 \<Rightarrow>
                                   Inr \<lparr>it_x = x, it_dims = dims2, it_writable = writable,
                                        it_N = N1, it_FLG = FLG, it_idx = idx0,
                                        it_indices = inds, it_sh = sh0, it_ibuf = ibuf0,
                                        it_i = - 1\<rparr>)))))))"

text \<open>Lines 87 to 206: the type guards, the options, then the setup.\<close>

definition nditerStacks :: "arg1 \<Rightarrow> arg2 \<Rightarrow> arg3 option \<Rightarrow> error + iterator" where
  "nditerStacks x dims options =
     (case x of
        NotNdarray \<Rightarrow> Inl NotNdarrayError
      | Ndarray xa \<Rightarrow>
          (if \<not> isIntegerArray dims then Inl NotIntegerArrayError
           else (case check_options xa options of
             Inl e \<Rightarrow> Inl e
           | Inr w \<Rightarrow> setup_iterator xa (copy_ints dims) w)))"

subsection \<open>The methods of the iterator\<close>

text \<open>
  A result object has a \<^verbatim>\<open>done\<close> property and possibly a \<^verbatim>\<open>value\<close> property: a view from
  \<^verbatim>\<open>next\<close>, or the argument handed to \<^verbatim>\<open>return\<close>.
\<close>

datatype 'v result_value = View view | Passed 'v

record 'v iter_result =
  res_value :: "'v result_value option"
  res_done :: bool

text \<open>
  \<^verbatim>\<open>next()\<close>, lines 214 to 237. The counter is incremented first, whatever follows. The
  multi-slice is built from \<^verbatim>\<open>idx\<close> before \<^verbatim>\<open>ibuf\<close> and \<^verbatim>\<open>idx\<close> are updated, and does not alias
  \<^verbatim>\<open>idx\<close>. A \<^verbatim>\<open>null\<close> from \<^verbatim>\<open>nextCartesianIndex\<close> would make \<^verbatim>\<open>put\<close> raise.
\<close>

definition iter_next :: "iterator \<Rightarrow> error + ('v iter_result \<times> iterator)" where
  "iter_next it =
     (let it1 = it\<lparr>it_i := it_i it + 1\<rparr>
      in if it_FLG it1 \<or> js_ge (it_i it1) (it_N it1)
         then Inr (\<lparr>res_value = None, res_done = True\<rparr>, it1)
         else (case args2multislice (it_idx it1) of
           Inl e \<Rightarrow> Inl e
         | Inr s \<Rightarrow>
             (case nextCartesianIndex (it_sh it1) (it_ibuf it1) of
                None \<Rightarrow> Inl NullIndexError
              | Some ibuf' \<Rightarrow>
                  (case put_throw (it_idx it1) (it_indices it1) ibuf' of
                     Inl e \<Rightarrow> Inl e
                   | Inr idx' \<Rightarrow>
                       (case slice (it_x it1) s (it_writable it1) of
                          Inl e \<Rightarrow> Inl e
                        | Inr v \<Rightarrow>
                            Inr (\<lparr>res_value = Some (View v), res_done = False\<rparr>,
                                 it1\<lparr>it_ibuf := ibuf', it_idx := idx'\<rparr>))))))"

text \<open>\<^verbatim>\<open>return( value )\<close>, lines 246 to 257; \<open>None\<close> is a call without an argument.\<close>

definition iter_end :: "'v option \<Rightarrow> iterator \<Rightarrow> 'v iter_result \<times> iterator" where
  "iter_end arg it =
     (let it1 = it\<lparr>it_FLG := True\<rparr>
      in case arg of
           Some v \<Rightarrow> (\<lparr>res_value = Some (Passed v), res_done = True\<rparr>, it1)
         | None \<Rightarrow> (\<lparr>res_value = None, res_done = True\<rparr>, it1))"

text \<open>
  The factory, lines 265 to 267: \<^verbatim>\<open>nditerStacks( x, dims, opts )\<close> with the normalized
  \<^verbatim>\<open>dims\<close> and the object \<^verbatim>\<open>opts\<close>, whose only property is \<^verbatim>\<open>writable\<close>.
\<close>

definition factory :: "iterator \<Rightarrow> error + iterator" where
  "factory it =
     nditerStacks (Ndarray (it_x it)) (JSArray (map (\<lambda>d. JInt (int d)) (it_dims it)))
       (Some (PlainObject [(''writable'', JBool (it_writable it))]))"

text \<open>A consumer: a sequence of calls of \<^verbatim>\<open>next\<close> and \<^verbatim>\<open>return\<close>, stopped by the first exception.\<close>

datatype 'v call = CallNext | CallReturn "'v option"

fun call_method :: "'v call \<Rightarrow> iterator \<Rightarrow> error + ('v iter_result \<times> iterator)" where
  "call_method CallNext it = iter_next it"
| "call_method (CallReturn arg) it = Inr (iter_end arg it)"

fun run :: "iterator \<Rightarrow> 'v call list \<Rightarrow> error + ('v iter_result list \<times> iterator)" where
  "run it [] = Inr ([], it)"
| "run it (c # cs) =
     (case call_method c it of
        Inl e \<Rightarrow> Inl e
      | Inr (r, it') \<Rightarrow>
          (case run it' cs of Inl e \<Rightarrow> Inl e | Inr (rs, it'') \<Rightarrow> Inr (r # rs, it'')))"


section \<open>Notions used to state the properties\<close>

text \<open>
  The definitions of this section are not part of the program; they name what the
  statements below talk about.
\<close>

text \<open>The requested indices after normalization against the number of dimensions.\<close>

definition normalized :: "nat \<Rightarrow> int list \<Rightarrow> nat list" where
  "normalized ndims ds = map (\<lambda>d. nat (normalizeIndex d (int ndims - 1))) ds"

text \<open>The free dimensions: those not stacked, in ascending order.\<close>

definition free_dims :: "nat \<Rightarrow> nat list \<Rightarrow> nat list" where
  "free_dims ndims ds = filter (\<lambda>k. k \<notin> set ds) [0..<ndims]"

text \<open>
  A list of stacked dimensions as the checks leave it: strictly ascending, within the
  dimensions of the array, and leaving at least one dimension free.
\<close>

definition accepted :: "nat list \<Rightarrow> nat list \<Rightarrow> bool" where
  "accepted shp ds \<longleftrightarrow>
     sorted_wrt (<) ds \<and> (\<forall>d \<in> set ds. d < length shp) \<and> length ds < length shp"

text \<open>
  A requested dimension list that passes every check: not empty, shorter than the shape,
  every index within \<open>[-ndims, ndims)\<close>, and strictly ascending once normalized.
\<close>

definition valid_dims :: "nat list \<Rightarrow> int list \<Rightarrow> bool" where
  "valid_dims shp ds0 \<longleftrightarrow>
     ds0 \<noteq> [] \<and> length ds0 < length shp \<and>
     (\<forall>d \<in> set ds0. - int (length shp) \<le> d \<and> d < int (length shp)) \<and>
     sorted_wrt (<) (normalized (length shp) ds0)"

text \<open>
  The number of subarrays: the product of the extents of the free dimensions, and zero for
  an array without elements.
\<close>

definition total_steps :: "nat list \<Rightarrow> nat list \<Rightarrow> nat" where
  "total_steps shp ds =
     (if numel shp = 0 then 0 else prod_list (map ((!) shp) (free_dims (length shp) ds)))"

text \<open>
  Row-major unravelling of a linear position over a shape: the last coordinate is the
  position modulo the last extent and varies fastest; the quotient is unravelled over the
  remaining extents.
\<close>

fun digits :: "nat list \<Rightarrow> nat \<Rightarrow> nat list" where
  "digits [] y = []"
| "digits (s # ss) y = y mod s # digits ss (y div s)"

definition unravel :: "nat list \<Rightarrow> nat \<Rightarrow> nat list" where
  "unravel shp y = rev (digits (rev shp) y)"

text \<open>
  The index array and the slice that belong to a coordinate \<open>c\<close> over the free dimensions:
  a free dimension carries its coordinate, every other dimension is \<^verbatim>\<open>null\<close>.
\<close>

definition idx_at :: "nat \<Rightarrow> nat list \<Rightarrow> nat list \<Rightarrow> cell list" where
  "idx_at n free c =
     map (\<lambda>d. case map_of (zip free c) d of None \<Rightarrow> Null | Some v \<Rightarrow> Num v) [0..<n]"

definition stack_slice :: "nat \<Rightarrow> nat list \<Rightarrow> nat list \<Rightarrow> nat option list" where
  "stack_slice n free c = map (map_of (zip free c)) [0..<n]"

definition stack_view :: "ndarray \<Rightarrow> nat list \<Rightarrow> bool \<Rightarrow> nat list \<Rightarrow> view" where
  "stack_view x free w c =
     (let s = stack_slice (length (getShape x)) free c
      in \<lparr>view_of = x, view_slice = s,
          view_shape = map snd (filter (\<lambda>(a, e). a = None) (zip s (getShape x))),
          view_writable = w\<rparr>)"

text \<open>The iterator that a successful setup returns, in closed form.\<close>

definition initial :: "ndarray \<Rightarrow> nat list \<Rightarrow> bool \<Rightarrow> iterator" where
  "initial x ds w =
     (let shp = getShape x; ndims = length shp; free = free_dims ndims ds
      in \<lparr>it_x = x, it_dims = ds, it_writable = w,
          it_N = fold (\<lambda>d n. if d < ndims then jsdiv n (shp ! d) else NaN) ds
                   (Fin (of_nat (numel shp))),
          it_FLG = (numel shp = 0),
          it_idx = map (\<lambda>k. if k \<in> set ds then Null else Num 0) [0..<ndims],
          it_indices = free, it_sh = map ((!) shp) free,
          it_ibuf = replicate (length free) (Num 0), it_i = - 1\<rparr>)"

text \<open>
  The state of an iterator whose odometer stands at linear position \<open>y\<close>, with counter
  \<open>k\<close> and flag \<open>f\<close>.
\<close>

definition cursor :: "iterator \<Rightarrow> nat \<Rightarrow> int \<Rightarrow> bool \<Rightarrow> iterator" where
  "cursor it y k f =
     it\<lparr>it_idx := idx_at (length (getShape (it_x it))) (it_indices it) (unravel (it_sh it) y),
        it_ibuf := map Num (unravel (it_sh it) y), it_i := k, it_FLG := f\<rparr>"

definition view_at :: "iterator \<Rightarrow> nat \<Rightarrow> view" where
  "view_at it y = stack_view (it_x it) (it_indices it) (it_writable it) (unravel (it_sh it) y)"

text \<open>What \<^verbatim>\<open>next\<close> relies on: distinct free dimensions within the array, at least one.\<close>

definition well_formed :: "iterator \<Rightarrow> bool" where
  "well_formed it \<longleftrightarrow>
     distinct (it_indices it) \<and> it_indices it \<noteq> [] \<and>
     (\<forall>k \<in> set (it_indices it). k < length (getShape (it_x it))) \<and>
     it_sh it = map ((!) (getShape (it_x it))) (it_indices it)"

text \<open>An iterator whose next call of \<^verbatim>\<open>next\<close> reports the end.\<close>

definition exhausted :: "iterator \<Rightarrow> bool" where
  "exhausted it \<longleftrightarrow> it_FLG it \<or> js_ge (it_i it + 1) (it_N it)"

text \<open>The number of results that carry a view.\<close>

definition yields :: "'v iter_result list \<Rightarrow> nat" where
  "yields rs = length (filter (\<lambda>r. \<not> res_done r) rs)"

abbreviation done_result :: "'v iter_result" where
  "done_result \<equiv> \<lparr>res_value = None, res_done = True\<rparr>"

abbreviation view_result :: "view \<Rightarrow> 'v iter_result" where
  "view_result v \<equiv> \<lparr>res_value = Some (View v), res_done = False\<rparr>"


section \<open>The checks and loops of the setup\<close>

lemma normalizeIndex_range:
  "normalizeIndex k mx \<noteq> - 1 \<Longrightarrow> 0 \<le> normalizeIndex k mx \<and> normalizeIndex k mx \<le> mx"
  by (auto simp: normalizeIndex_def Let_def split: if_splits)

lemma normalize_dims_eq:
  "normalize_dims ds ndims =
     (if \<exists>d \<in> set ds. normalizeIndex d (int ndims - 1) = - 1 then Inl DimRangeError
      else Inr (normalized ndims ds))"
  by (induction ds) (auto simp: normalized_def Let_def)

lemma normalized_bound:
  assumes "\<forall>d \<in> set ds. normalizeIndex d (int ndims - 1) \<noteq> - 1" and "k \<in> set (normalized ndims ds)"
  shows "k < ndims"
proof -
  from assms(2) obtain d where d: "d \<in> set ds" and k: "k = nat (normalizeIndex d (int ndims - 1))"
    by (auto simp: normalized_def)
  from assms(1) d have "normalizeIndex d (int ndims - 1) \<noteq> - 1" by blast
  from normalizeIndex_range [OF this] show ?thesis using k by linarith
qed

lemma descends_iff: "descends ds \<longleftrightarrow> \<not> sorted ds"
proof (induction ds rule: descends.induct)
  case (1 a b ds)
  then show ?case by (simp add: sorted2 not_le del: sorted_wrt.simps)
qed simp_all

lemma unique_loop_eq:
  "j = k \<Longrightarrow> unique_loop ds k j =
     (if \<exists>m. k \<le> m \<and> m < length ds \<and> ds ! m = ds ! (m - 1) then Inl UniquenessError else Inr ds)"
proof (induction ds k j rule: unique_loop.induct)
  case (1 ds k j)
  show ?case
  proof (cases "k < length ds")
    case False
    then show ?thesis by (subst unique_loop.simps) auto
  next
    case True
    show ?thesis
    proof (cases "ds ! k = ds ! (k - 1)")
      case eq: True
      with True show ?thesis by (subst unique_loop.simps) auto
    next
      case ne: False
      have upd: "ds[j := ds ! k] = ds" using "1.prems" by simp
      have "unique_loop ds k j = unique_loop ds (k + 1) (j + 1)"
        using True ne upd by (subst unique_loop.simps) simp
      also have "\<dots> = (if \<exists>m. k + 1 \<le> m \<and> m < length ds \<and> ds ! m = ds ! (m - 1)
                       then Inl UniquenessError else Inr ds)"
      proof -
        have "j + 1 = k + 1" using "1.prems" by simp
        from "1.IH" [OF True ne this] show ?thesis unfolding upd .
      qed
      also have "(\<exists>m. k + 1 \<le> m \<and> m < length ds \<and> ds ! m = ds ! (m - 1)) \<longleftrightarrow>
                 (\<exists>m. k \<le> m \<and> m < length ds \<and> ds ! m = ds ! (m - 1))"
        using ne by (metis Suc_eq_plus1 Suc_leD Suc_leI le_neq_implies_less)
      finally show ?thesis .
    qed
  qed
qed

lemma sorted_adjacent_distinct:
  assumes "sorted (ds :: nat list)"
  shows "(\<exists>m. 1 \<le> m \<and> m < length ds \<and> ds ! m = ds ! (m - 1)) \<longleftrightarrow> \<not> distinct ds"
proof
  assume "\<exists>m. 1 \<le> m \<and> m < length ds \<and> ds ! m = ds ! (m - 1)"
  then obtain m where "1 \<le> m" "m < length ds" "ds ! m = ds ! (m - 1)" by blast
  then have "m - 1 < length ds" "m - 1 \<noteq> m" "ds ! (m - 1) = ds ! m" by simp_all
  with \<open>m < length ds\<close> show "\<not> distinct ds"
    unfolding distinct_conv_nth by blast
next
  assume nd: "\<not> distinct ds"
  show "\<exists>m. 1 \<le> m \<and> m < length ds \<and> ds ! m = ds ! (m - 1)"
  proof (rule ccontr)
    assume no: "\<not> ?thesis"
    have "sorted_wrt (<) ds"
    proof (subst sorted_wrt_iff_nth_Suc_transp)
      show "transp ((<) :: nat \<Rightarrow> nat \<Rightarrow> bool)" by simp
      show "\<forall>i. Suc i < length ds \<longrightarrow> ds ! i < ds ! Suc i"
      proof (intro allI impI)
        fix i assume i: "Suc i < length ds"
        with assms have "ds ! i \<le> ds ! Suc i" by (simp add: sorted_iff_nth_Suc)
        moreover from no i have "ds ! Suc i \<noteq> ds ! i"
          by (metis One_nat_def diff_Suc_1 le_add1 plus_1_eq_Suc)
        ultimately show "ds ! i < ds ! Suc i" by simp
      qed
    qed
    then have "distinct ds" by (simp add: strict_sorted_iff)
    with nd show False by simp
  qed
qed

lemma unique_loop_sorted:
  "sorted ds \<Longrightarrow>
   unique_loop ds (Suc 0) (Suc 0) = (if distinct ds then Inr ds else Inl UniquenessError)"
  using unique_loop_eq [of "Suc 0" "Suc 0" ds] sorted_adjacent_distinct [of ds] by auto

lemma free_loop_eq:
  "sorted_wrt (<) ds \<Longrightarrow> (\<forall>m<j. ds ! m < k) \<Longrightarrow>
   (\<forall>m. j \<le> m \<and> m < length ds \<longrightarrow> k \<le> ds ! m) \<Longrightarrow>
   free_loop ds ndims k j acc = acc @ filter (\<lambda>k. k \<notin> set ds) [k..<ndims]"
proof (induction ds ndims k j acc rule: free_loop.induct)
  case (1 ds ndims k j acc)
  have strict: "\<And>a b. a < b \<Longrightarrow> b < length ds \<Longrightarrow> ds ! a < ds ! b"
    using "1.prems"(1) unfolding sorted_wrt_iff_nth_less by blast
  show ?case
  proof (cases "k < ndims")
    case False
    then show ?thesis by (subst free_loop.simps) simp
  next
    case True
    then have upt: "[k..<ndims] = k # [k + 1..<ndims]" by (simp add: upt_conv_Cons)
    show ?thesis
    proof (cases "j < length ds \<and> k = ds ! j")
      case hit: True
      then have kin: "k \<in> set ds" by auto
      have b: "\<forall>m<j + 1. ds ! m < k + 1"
      proof (intro allI impI)
        fix m assume "m < j + 1"
        then have "m < j \<or> m = j" by auto
        then show "ds ! m < k + 1" using "1.prems"(2) hit by auto
      qed
      have c: "\<forall>m. j + 1 \<le> m \<and> m < length ds \<longrightarrow> k + 1 \<le> ds ! m"
      proof (intro allI impI)
        fix m assume m: "j + 1 \<le> m \<and> m < length ds"
        then have "ds ! j < ds ! m" using strict [of j m] by simp
        then show "k + 1 \<le> ds ! m" using hit by simp
      qed
      have "free_loop ds ndims k j acc = free_loop ds ndims (k + 1) (j + 1) acc"
        using True hit by (subst free_loop.simps) simp
      also have "\<dots> = acc @ filter (\<lambda>k. k \<notin> set ds) [k + 1..<ndims]"
        using "1.IH"(1) [OF True hit "1.prems"(1) b c] .
      finally show ?thesis using kin upt by simp
    next
      case miss: False
      have knot: "k \<notin> set ds"
      proof
        assume "k \<in> set ds"
        then obtain m where m: "m < length ds" "ds ! m = k" by (auto simp: in_set_conv_nth)
        show False
        proof (cases "m < j")
          case True
          with "1.prems"(2) m show False by auto
        next
          case False
          then have "m = j \<or> j < m" by auto
          then show False
          proof
            assume "m = j" with miss m show False by auto
          next
            assume jm: "j < m"
            then have "ds ! j < ds ! m" using strict [of j m] m by simp
            moreover have "k \<le> ds ! j" using "1.prems"(3) jm m by auto
            ultimately show False using m by simp
          qed
        qed
      qed
      have b: "\<forall>m<j. ds ! m < k + 1" using "1.prems"(2) by auto
      have c: "\<forall>m. j \<le> m \<and> m < length ds \<longrightarrow> k + 1 \<le> ds ! m"
      proof (intro allI impI)
        fix m assume m: "j \<le> m \<and> m < length ds"
        then have "k \<le> ds ! m" using "1.prems"(3) by blast
        moreover have "ds ! m \<noteq> k" using knot m by auto
        ultimately show "k + 1 \<le> ds ! m" by simp
      qed
      have "free_loop ds ndims k j acc = free_loop ds ndims (k + 1) j (acc @ [k])"
        using True miss by (subst free_loop.simps) auto
      also have "\<dots> = (acc @ [k]) @ filter (\<lambda>k. k \<notin> set ds) [k + 1..<ndims]"
        using "1.IH"(2) [OF True miss "1.prems"(1) b c] .
      finally show ?thesis using knot upt by simp
    qed
  qed
qed

lemma free_loop_free_dims:
  "sorted_wrt (<) ds \<Longrightarrow> free_loop ds ndims 0 0 [] = free_dims ndims ds"
  using free_loop_eq [of ds 0 0 ndims "[]"] by (simp add: free_dims_def)

lemma take_throw_eq:
  "\<forall>k \<in> set ks. k < length xs \<Longrightarrow> take_throw xs ks = Inr (map ((!) xs) ks)"
  by (induction ks) auto

lemma fold_null_eq:
  "fold (\<lambda>d ix. ix[d := Null]) ds ix =
     map (\<lambda>k. if k \<in> set ds then Null else ix ! k) [0..<length ix]"
proof (induction ds arbitrary: ix)
  case Nil
  show ?case by (simp add: map_nth)
next
  case (Cons d ds)
  show ?case
    by (rule nth_equalityI) (auto simp: Cons nth_list_update)
qed

lemma fold_jsdiv_eq:
  "\<forall>d \<in> set ds. d < length shp \<and> 0 < shp ! d \<Longrightarrow>
   fold (\<lambda>d n. if d < length shp then jsdiv n (shp ! d) else NaN) ds (Fin q) =
     Fin (q / of_nat (prod_list (map ((!) shp) ds)))"
  by (induction ds arbitrary: q) (simp_all add: divide_divide_eq_left)

lemma prod_list_partition:
  "prod_list (map f xs) =
     prod_list (map f (filter P xs)) * (prod_list (map f (filter (\<lambda>x. \<not> P x) xs)) :: nat)"
  by (induction xs) auto

lemma filter_mem_sorted:
  assumes "sorted_wrt (<) ds" and "\<forall>d \<in> set ds. d < n"
  shows "filter (\<lambda>k. k \<in> set ds) [0..<n] = ds"
proof (rule sorted_distinct_set_unique)
  show "sorted (filter (\<lambda>k. k \<in> set ds) [0..<n])" by (simp add: sorted_wrt_filter)
  show "distinct (filter (\<lambda>k. k \<in> set ds) [0..<n])" by simp
  show "sorted ds" "distinct ds" using assms(1) by (simp_all add: strict_sorted_iff)
  show "set (filter (\<lambda>k. k \<in> set ds) [0..<n]) = set ds" using assms(2) by auto
qed

lemma prod_shape_split:
  assumes "sorted_wrt (<) ds" and "\<forall>d \<in> set ds. d < length (shp :: nat list)"
  shows "prod_list shp =
     prod_list (map ((!) shp) ds) * prod_list (map ((!) shp) (free_dims (length shp) ds))"
proof -
  have "prod_list shp = prod_list (map ((!) shp) [0..<length shp])" by (simp add: map_nth)
  also have "\<dots> = prod_list (map ((!) shp) (filter (\<lambda>k. k \<in> set ds) [0..<length shp])) *
                    prod_list (map ((!) shp) (filter (\<lambda>k. k \<notin> set ds) [0..<length shp]))"
    using prod_list_partition [where f = "(!) shp" and P = "\<lambda>k. k \<in> set ds" and xs = "[0..<length shp]"] by simp
  finally show ?thesis by (simp add: filter_mem_sorted [OF assms] free_dims_def)
qed


section \<open>The odometer and the helpers of \<^verbatim>\<open>next\<close>\<close>

lemma length_digits [simp]: "length (digits shp y) = length shp"
  by (induction shp arbitrary: y) auto

lemma length_unravel [simp]: "length (unravel shp y) = length shp"
  by (simp add: unravel_def)

lemma unravel_Nil [simp]: "unravel [] y = []"
  by (simp add: unravel_def)

lemma unravel_snoc: "unravel (shp @ [s]) y = unravel shp (y div s) @ [y mod s]"
  by (simp add: unravel_def)

lemma unravel_zero: "unravel shp 0 = replicate (length shp) 0"
proof (induction shp rule: rev_induct)
  case Nil
  show ?case by simp
next
  case (snoc s shp)
  then show ?case by (simp add: unravel_snoc replicate_append_same)
qed

lemma unravel_less: "\<forall>s \<in> set shp. 0 < s \<Longrightarrow> m < length shp \<Longrightarrow> unravel shp y ! m < shp ! m"
proof (induction shp arbitrary: y m rule: rev_induct)
  case Nil
  then show ?case by simp
next
  case (snoc s shp)
  show ?case
  proof (cases "m < length shp")
    case True
    with snoc show ?thesis by (simp add: unravel_snoc nth_append)
  next
    case False
    with snoc.prems have "m = length shp" by simp
    with snoc.prems show ?thesis by (simp add: unravel_snoc nth_append)
  qed
qed

lemma carry_append:
  "k \<le> length out \<Longrightarrow> length out = length shp \<Longrightarrow>
   carry (shp @ ss) (out @ os) k = carry shp out k @ os"
proof (induction k arbitrary: out)
  case 0
  show ?case by simp
next
  case (Suc k)
  then have k: "k < length out" "k < length shp" by simp_all
  have upd: "(out @ os)[k := v] = out[k := v] @ os" for v
    using k by (simp add: list_update_append)
  show ?case
    using Suc.IH [of "out[k := inc_mod (out ! k) (shp ! k)]"] Suc.prems k
    by (simp add: Let_def nth_append upd)
qed

lemma odometer:
  "\<forall>s \<in> set shp. 0 < s \<Longrightarrow>
   carry shp (map Num (unravel shp y)) (length shp) = map Num (unravel shp (Suc y))"
proof (induction shp arbitrary: y rule: rev_induct)
  case Nil
  show ?case by simp
next
  case (snoc s shp)
  then have s: "0 < s" and pos: "\<forall>s \<in> set shp. 0 < s" by simp_all
  let ?c = "unravel shp (y div s)"
  have len: "length (map Num ?c) = length shp" by simp
  have j: "(y mod s + 1) mod s = Suc y mod s" by (simp add: mod_Suc_eq)
  have upd: "(map Num ?c @ [a])[length shp := b] = map Num ?c @ [b]" for a b
    using list_update_length [of "map Num ?c" a "[]" b] by simp
  have step: "carry (shp @ [s]) (map Num (unravel (shp @ [s]) y)) (length (shp @ [s])) =
        (if 0 < Suc y mod s then map Num ?c @ [Num (Suc y mod s)]
         else carry (shp @ [s]) (map Num ?c @ [Num 0]) (length shp))"
    using s j by (simp add: unravel_snoc Let_def nth_append upd)
  show ?case
  proof (cases "0 < Suc y mod s")
    case True
    then have "Suc y div s = y div s" by (simp add: div_Suc)
    with True step show ?thesis by (simp add: unravel_snoc)
  next
    case False
    then have d: "Suc y div s = Suc (y div s)" by (simp add: div_Suc)
    have "carry (shp @ [s]) (map Num ?c @ [Num 0]) (length shp) =
          carry shp (map Num ?c) (length shp) @ [Num 0]"
      by (rule carry_append) simp_all
    also have "\<dots> = map Num (unravel shp (Suc (y div s))) @ [Num 0]"
      using snoc.IH [OF pos] by simp
    finally show ?thesis using False step d by (simp add: unravel_snoc)
  qed
qed

lemma nextCartesianIndex_unravel:
  "shp \<noteq> [] \<Longrightarrow> \<forall>s \<in> set shp. 0 < s \<Longrightarrow>
   nextCartesianIndex shp (map Num (unravel shp y)) = Some (map Num (unravel shp (Suc y)))"
  by (simp add: nextCartesianIndex_def odometer)

lemma args2multislice_map:
  "args2multislice (map (\<lambda>d. case f d of None \<Rightarrow> Null | Some v \<Rightarrow> Num v) ds) = Inr (map f ds)"
  by (induction ds) (auto split: option.splits)

lemma args2multislice_idx_at:
  "args2multislice (idx_at n free c) = Inr (stack_slice n free c)"
  unfolding idx_at_def stack_slice_def by (rule args2multislice_map)

lemma put_all_nth:
  "distinct ks \<Longrightarrow> \<forall>k \<in> set ks. k < length xs \<Longrightarrow> length vs = length ks \<Longrightarrow>
   \<exists>ys. put_all xs ks vs = Inr ys \<and> length ys = length xs \<and>
        (\<forall>m < length ks. ys ! (ks ! m) = vs ! m) \<and>
        (\<forall>d < length xs. d \<notin> set ks \<longrightarrow> ys ! d = xs ! d)"
proof (induction xs ks vs rule: put_all.induct)
  case (1 xs vs)
  then show ?case by simp
next
  case (2 xs k ks)
  then show ?case by simp
next
  case (3 xs k ks v vs)
  then have k: "k < length xs" "k \<notin> set ks" by simp_all
  from 3 obtain ys where ys: "put_all (xs[k := v]) ks vs = Inr ys" "length ys = length xs"
      "\<forall>m < length ks. ys ! (ks ! m) = vs ! m"
      "\<forall>d < length xs. d \<notin> set ks \<longrightarrow> ys ! d = xs[k := v] ! d"
    by auto
  have "\<forall>m < length (k # ks). ys ! ((k # ks) ! m) = (v # vs) ! m"
  proof (intro allI impI)
    fix m assume m: "m < length (k # ks)"
    show "ys ! ((k # ks) ! m) = (v # vs) ! m"
    proof (cases m)
      case 0
      then show ?thesis using ys(4) k by simp
    next
      case (Suc m')
      then show ?thesis using ys(3) m by simp
    qed
  qed
  moreover have "\<forall>d < length xs. d \<notin> set (k # ks) \<longrightarrow> ys ! d = xs ! d"
    using ys(4) by auto
  ultimately show ?case using ys(1,2) k by auto
qed


section \<open>Unravelling enumerates the coordinates in row-major order\<close>

lemma unravel_mod: "unravel shp (y mod prod_list shp) = unravel shp y"
proof (induction shp arbitrary: y rule: rev_induct)
  case Nil
  show ?case by simp
next
  case (snoc t shp)
  let ?Q = "prod_list shp"
  have a: "y mod (?Q * t) mod t = y mod t" by (simp add: mod_mod_cancel)
  have b: "y mod (?Q * t) div t = y div t mod ?Q"
  proof (cases "t = 0")
    case True
    then show ?thesis by simp
  next
    case False
    have "y mod (t * ?Q) = t * (y div t mod ?Q) + y mod t" by (rule mod_mult2_eq)
    then have "y mod (t * ?Q) div t = (t * (y div t mod ?Q) + y mod t) div t" by simp
    also have "\<dots> = y div t mod ?Q" using False by simp
    finally show ?thesis by (simp add: mult.commute)
  qed
  show ?case using snoc.IH [of "y div t"] by (simp add: unravel_snoc a b)
qed

lemma unravel_Cons: "unravel (s # shp) y = (y div prod_list shp) mod s # unravel shp y"
proof (induction shp arbitrary: y rule: rev_induct)
  case Nil
  show ?case using unravel_snoc [of "[]" s y] by simp
next
  case (snoc t shp)
  have "unravel (s # shp @ [t]) y = unravel (s # shp) (y div t) @ [y mod t]"
    using unravel_snoc [of "s # shp" t y] by simp
  also have "\<dots> = ((y div t) div prod_list shp) mod s # unravel shp (y div t) @ [y mod t]"
    by (simp add: snoc.IH)
  also have "(y div t) div prod_list shp = y div prod_list (shp @ [t])"
    by (simp add: div_mult2_eq mult.commute)
  finally show ?case by (simp add: unravel_snoc)
qed

lemma map_upt_blocks:
  "map f [0..<s * q] = concat (map (\<lambda>a. map (\<lambda>z. f (a * q + z)) [0..<q]) [0..<s])"
proof (induction s)
  case 0
  show ?case by simp
next
  case (Suc s)
  have shifted: "[s * q..<s * q + q] = map (\<lambda>z. s * q + z) [0..<q]"
    using map_add_upt [of "s * q" q] by (simp only: add.commute)
  have "map f [0..<Suc s * q] = map f [0..<s * q + q]" by (simp add: add.commute)
  also have "\<dots> = map f ([0..<s * q] @ [s * q..<s * q + q])"
    by (simp only: upt_add_eq_append [OF le0])
  also have "\<dots> = map f [0..<s * q] @ map f (map (\<lambda>z. s * q + z) [0..<q])"
    by (simp only: shifted map_append)
  also have "\<dots> = map f [0..<s * q] @ map (\<lambda>z. f (s * q + z)) [0..<q]"
    by (simp add: o_def)
  finally show ?case using Suc by simp
qed

lemma unravel_enumerates:
  "map (unravel shp) [0..<prod_list shp] = product_lists (map (\<lambda>s. [0..<s]) shp)"
proof (induction shp)
  case Nil
  show ?case by simp
next
  case (Cons s shp)
  let ?Q = "prod_list shp"
  have blk: "map (\<lambda>z. unravel (s # shp) (a * ?Q + z)) [0..<?Q] = map (Cons a) (map (unravel shp) [0..<?Q])"
    if "a < s" for a
  proof -
    have "unravel (s # shp) (a * ?Q + z) = a # unravel shp z" if "z < ?Q" for z
    proof -
      have "(a * ?Q + z) div ?Q = a" using that by simp
      moreover have "unravel shp (a * ?Q + z) = unravel shp z"
        using unravel_mod [of shp "a * ?Q + z"] that by simp
      ultimately show ?thesis using \<open>a < s\<close> by (simp add: unravel_Cons)
    qed
    then show ?thesis by simp
  qed
  have "map (unravel (s # shp)) [0..<prod_list (s # shp)] =
        concat (map (\<lambda>a. map (\<lambda>z. unravel (s # shp) (a * ?Q + z)) [0..<?Q]) [0..<s])"
    using map_upt_blocks [of "unravel (s # shp)" s ?Q] by simp
  also have "\<dots> = concat (map (\<lambda>a. map (Cons a) (map (unravel shp) [0..<?Q])) [0..<s])"
    using blk by (intro arg_cong [where f = concat] map_cong) auto
  finally show ?case using Cons by simp
qed


section \<open>The setup in closed form\<close>

lemma setup_iterator_eq:
  "setup_iterator x dims0 w =
     (let ndims = length (getShape x); ds = normalized ndims dims0
      in if ndims \<le> length dims0 then Inl InsufficientDimsError
         else if \<exists>d \<in> set dims0. normalizeIndex d (int ndims - 1) = - 1 then Inl DimRangeError
         else if \<not> sorted ds then Inl OrderingError
         else if \<not> distinct ds then Inl UniquenessError
         else Inr (initial x ds w))"
proof -
  let ?n = "length (getShape x)"
  let ?ds = "normalized ?n dims0"
  show ?thesis
  proof (cases "?n \<le> length dims0 \<or> (\<exists>d \<in> set dims0. normalizeIndex d (int ?n - 1) = - 1)
                 \<or> \<not> sorted ?ds \<or> \<not> distinct ?ds")
    case True
    then show ?thesis
      by (auto simp: setup_iterator_def Let_def normalize_dims_eq descends_iff unique_loop_sorted)
  next
    case False
    then have ok: "\<not> ?n \<le> length dims0" "\<forall>d \<in> set dims0. normalizeIndex d (int ?n - 1) \<noteq> - 1"
      "sorted ?ds" "distinct ?ds" by auto
    have strict: "sorted_wrt (<) ?ds" using ok(3,4) by (simp add: strict_sorted_iff)
    have bound: "\<forall>k \<in> set ?ds. k < ?n" using normalized_bound [OF ok(2)] by blast
    have free: "free_loop ?ds ?n 0 0 [] = free_dims ?n ?ds" by (rule free_loop_free_dims [OF strict])
    have fb: "\<forall>k \<in> set (free_dims ?n ?ds). k < ?n" by (simp add: free_dims_def)
    have idx: "fold (\<lambda>d ix. ix[d := Null]) ?ds (replicate ?n (Num 0)) =
               map (\<lambda>k. if k \<in> set ?ds then Null else Num 0) [0..<?n]"
      by (simp add: fold_null_eq cong: map_cong)
    have t1: "take_throw (getShape x) (free_dims ?n ?ds) = Inr (map ((!) (getShape x)) (free_dims ?n ?ds))"
      using fb by (simp add: take_throw_eq)
    have t2: "take_throw (map (\<lambda>k. if k \<in> set ?ds then Null else Num 0) [0..<?n]) (free_dims ?n ?ds) =
              Inr (replicate (length (free_dims ?n ?ds)) (Num 0))"
    proof -
      have "map ((!) (map (\<lambda>k. if k \<in> set ?ds then Null else Num 0) [0..<?n])) (free_dims ?n ?ds) =
            replicate (length (free_dims ?n ?ds)) (Num 0)"
        by (rule nth_equalityI) (auto simp: free_dims_def dest: nth_mem)
      then show ?thesis using fb by (simp add: take_throw_eq)
    qed
    show ?thesis
      using ok
      by (simp add: setup_iterator_def Let_def normalize_dims_eq descends_iff unique_loop_sorted
            free idx t1 t2 initial_def)
  qed
qed


section \<open>One call of \<^verbatim>\<open>next\<close>\<close>

lemma map_of_zip_free:
  "distinct free \<Longrightarrow> length c = length free \<Longrightarrow> m < length free \<Longrightarrow>
   map_of (zip free c) (free ! m) = Some (c ! m)"
  by (simp add: map_of_zip_nth)

lemma map_of_zip_stacked:
  "length c = length free \<Longrightarrow> d \<notin> set free \<Longrightarrow> map_of (zip free c) d = None"
  using map_of_zip_is_None [of free c d] by simp

lemma put_throw_same_length:
  "length vs = length ks \<Longrightarrow> put_throw xs ks vs = put_all xs ks vs"
proof (cases "length vs = 1")
  case True
  assume "length vs = length ks"
  with True obtain v k where "vs = [v]" "ks = [k]"
    by (metis One_nat_def length_0_conv length_Suc_conv)
  then show ?thesis by (simp add: put_throw_def)
next
  case False
  assume "length vs = length ks"
  with False show ?thesis by (simp add: put_throw_def)
qed

lemma put_throw_idx_at:
  assumes "distinct free" and "\<forall>k \<in> set free. k < n"
    and "length c = length free" and "length c' = length free"
  shows "put_throw (idx_at n free c) free (map Num c') = Inr (idx_at n free c')"
proof -
  have len: "length (idx_at n free c) = n" by (simp add: idx_at_def)
  from put_all_nth [of free "idx_at n free c" "map Num c'"] assms len
  obtain ys where ys: "put_all (idx_at n free c) free (map Num c') = Inr ys" "length ys = n"
      "\<forall>m < length free. ys ! (free ! m) = map Num c' ! m"
      "\<forall>d < n. d \<notin> set free \<longrightarrow> ys ! d = idx_at n free c ! d"
    by auto
  have "ys = idx_at n free c'"
  proof (rule nth_equalityI)
    show "length ys = length (idx_at n free c')" using ys(2) by (simp add: idx_at_def)
  next
    fix d assume "d < length ys"
    then have d: "d < n" using ys(2) by simp
    show "ys ! d = idx_at n free c' ! d"
    proof (cases "d \<in> set free")
      case True
      then obtain m where m: "m < length free" "free ! m = d" by (auto simp: in_set_conv_nth)
      then have "ys ! d = Num (c' ! m)" using ys(3) assms(4) by auto
      moreover have "idx_at n free c' ! d = Num (c' ! m)"
        using d m map_of_zip_free [OF assms(1) assms(4) m(1)] by (simp add: idx_at_def)
      ultimately show ?thesis by simp
    next
      case False
      then have "ys ! d = idx_at n free c ! d" using ys(4) d by simp
      then show ?thesis
        using d False assms(3,4) by (simp add: idx_at_def map_of_zip_stacked)
    qed
  qed
  with ys(1) show ?thesis using assms(4) by (simp add: put_throw_same_length)
qed

lemma slice_stack_slice:
  assumes "distinct free" and "length c = length free"
    and "\<forall>m < length free. c ! m < getShape x ! (free ! m)"
  shows "slice x (stack_slice (length (getShape x)) free c) w = Inr (stack_view x free w c)"
proof -
  let ?n = "length (getShape x)"
  have "list_all2 in_bounds (stack_slice ?n free c) (getShape x)"
  proof (rule list_all2_all_nthI)
    show "length (stack_slice ?n free c) = length (getShape x)" by (simp add: stack_slice_def)
  next
    fix d assume "d < length (stack_slice ?n free c)"
    then have d: "d < ?n" by (simp add: stack_slice_def)
    show "in_bounds (stack_slice ?n free c ! d) (getShape x ! d)"
    proof (cases "d \<in> set free")
      case True
      then obtain m where m: "m < length free" "free ! m = d" by (auto simp: in_set_conv_nth)
      then show ?thesis
        using d assms(3) map_of_zip_free [OF assms(1,2) m(1)] by (auto simp: stack_slice_def)
    next
      case False
      then show ?thesis using d assms(2) by (simp add: stack_slice_def map_of_zip_stacked)
    qed
  qed
  then show ?thesis by (simp add: slice_def stack_view_def Let_def stack_slice_def)
qed

lemma cursor_cursor [simp]: "cursor (cursor it y k f) y' k' f' = cursor it y' k' f'"
  by (simp add: cursor_def)

lemma cursor_fields [simp]:
  "it_x (cursor it y k f) = it_x it" "it_dims (cursor it y k f) = it_dims it"
  "it_writable (cursor it y k f) = it_writable it" "it_N (cursor it y k f) = it_N it"
  "it_indices (cursor it y k f) = it_indices it" "it_sh (cursor it y k f) = it_sh it"
  "it_i (cursor it y k f) = k" "it_FLG (cursor it y k f) = f"
  by (simp_all add: cursor_def)

lemma well_formed_cursor [simp]: "well_formed (cursor it y k f) = well_formed it"
  by (simp add: well_formed_def)

lemma iter_next_done:
  "f \<or> js_ge (k + 1) (it_N it) \<Longrightarrow>
   iter_next (cursor it y k f) = Inr (\<lparr>res_value = None, res_done = True\<rparr>, cursor it y (k + 1) f)"
  by (auto simp: iter_next_def Let_def cursor_def)

lemma iter_next_yield:
  assumes wf: "well_formed it" and pos: "\<forall>s \<in> set (it_sh it). 0 < s"
    and go: "\<not> f" "\<not> js_ge (k + 1) (it_N it)"
  shows "iter_next (cursor it y k f) =
     Inr (\<lparr>res_value = Some (View (stack_view (it_x it) (it_indices it) (it_writable it)
                                      (unravel (it_sh it) y))),
           res_done = False\<rparr>,
          cursor it (Suc y) (k + 1) f)"
proof -
  let ?n = "length (getShape (it_x it))"
  let ?free = "it_indices it"
  let ?c = "unravel (it_sh it) y"
  let ?c' = "unravel (it_sh it) (Suc y)"
  from wf have d: "distinct ?free" and ne: "?free \<noteq> []" and b: "\<forall>k \<in> set ?free. k < ?n"
    and sh: "it_sh it = map ((!) (getShape (it_x it))) ?free"
    by (simp_all add: well_formed_def)
  have len: "length ?c = length ?free" "length ?c' = length ?free" using sh by simp_all
  have shne: "it_sh it \<noteq> []" using sh ne by simp
  have a: "args2multislice (idx_at ?n ?free ?c) = Inr (stack_slice ?n ?free ?c)"
    by (rule args2multislice_idx_at)
  have n: "nextCartesianIndex (it_sh it) (map Num ?c) = Some (map Num ?c')"
    by (rule nextCartesianIndex_unravel [OF shne pos])
  have p: "put_throw (idx_at ?n ?free ?c) ?free (map Num ?c') = Inr (idx_at ?n ?free ?c')"
    by (rule put_throw_idx_at [OF d b len])
  have inb: "\<forall>m < length ?free. ?c ! m < getShape (it_x it) ! (?free ! m)"
  proof (intro allI impI)
    fix m assume m: "m < length ?free"
    then have "?c ! m < it_sh it ! m" using unravel_less [OF pos, of m y] sh by simp
    then show "?c ! m < getShape (it_x it) ! (?free ! m)" using sh m by simp
  qed
  have s: "slice (it_x it) (stack_slice ?n ?free ?c) (it_writable it) =
           Inr (stack_view (it_x it) ?free (it_writable it) ?c)"
    by (rule slice_stack_slice [OF d len(1) inb])
  show ?thesis
    using go by (simp add: iter_next_def Let_def cursor_def a n p s)
qed


section \<open>The iterator after construction\<close>

lemma free_dims_props:
  "distinct (free_dims n ds)" "set (free_dims n ds) = {k. k < n \<and> k \<notin> set ds}"
  by (auto simp: free_dims_def)

lemma length_free_dims:
  assumes "sorted_wrt (<) ds" and "\<forall>d \<in> set ds. d < n"
  shows "length (free_dims n ds) = n - length ds"
proof -
  have "length (filter (\<lambda>k. k \<in> set ds) [0..<n]) + length (free_dims n ds) = n"
    unfolding free_dims_def using sum_length_filter_compl [of "\<lambda>k. k \<in> set ds" "[0..<n]"] by simp
  then show ?thesis by (simp add: filter_mem_sorted [OF assms])
qed

lemma initial_fields [simp]:
  "it_x (initial x ds w) = x" "it_dims (initial x ds w) = ds"
  "it_writable (initial x ds w) = w"
  "it_indices (initial x ds w) = free_dims (length (getShape x)) ds"
  "it_sh (initial x ds w) = map ((!) (getShape x)) (free_dims (length (getShape x)) ds)"
  "it_i (initial x ds w) = - 1" "it_FLG (initial x ds w) = (numel (getShape x) = 0)"
  by (simp_all add: initial_def Let_def)

lemma initial_well_formed:
  "accepted (getShape x) ds \<Longrightarrow> well_formed (initial x ds w)"
  using length_free_dims [of ds "length (getShape x)"]
  by (auto simp: well_formed_def accepted_def free_dims_props)

lemma initial_cursor:
  assumes "accepted (getShape x) ds"
  shows "initial x ds w = cursor (initial x ds w) 0 (- 1) (numel (getShape x) = 0)"
proof -
  let ?n = "length (getShape x)"
  let ?free = "free_dims ?n ds"
  let ?z = "replicate (length ?free) (0::nat)"
  have "map (\<lambda>k. if k \<in> set ds then Null else Num 0) [0..<?n] = idx_at ?n ?free ?z"
  proof (rule nth_equalityI)
    show "length (map (\<lambda>k. if k \<in> set ds then Null else Num 0) [0..<?n]) = length (idx_at ?n ?free ?z)"
      by (simp add: idx_at_def)
  next
    fix d assume "d < length (map (\<lambda>k. if k \<in> set ds then Null else Num 0) [0..<?n])"
    then have d: "d < ?n" by simp
    show "map (\<lambda>k. if k \<in> set ds then Null else Num 0) [0..<?n] ! d = idx_at ?n ?free ?z ! d"
    proof (cases "d \<in> set ds")
      case True
      then have "d \<notin> set ?free" by (simp add: free_dims_props)
      then show ?thesis using d True by (simp add: idx_at_def map_of_zip_stacked)
    next
      case False
      then have "d \<in> set ?free" using d by (simp add: free_dims_props)
      then obtain m where m: "m < length ?free" "?free ! m = d" by (auto simp: in_set_conv_nth)
      have "map_of (zip ?free ?z) (?free ! m) = Some (?z ! m)"
        by (rule map_of_zip_free) (simp_all add: free_dims_props m)
      then show ?thesis using d False m by (simp add: idx_at_def)
    qed
  qed
  then show ?thesis
    by (simp add: initial_def cursor_def Let_def unravel_zero)
qed

lemma numel_pos:
  assumes "numel shp \<noteq> 0" and "d < length shp"
  shows "0 < shp ! d"
proof -
  from assms(1) have "prod_list shp \<noteq> 0" by (simp add: numel_def split: if_splits)
  then have "0 \<notin> set shp" by (simp add: prod_list_zero_iff)
  moreover have "shp ! d \<in> set shp" using assms(2) by simp
  ultimately show ?thesis by (metis gr0I)
qed

lemma initial_pos:
  "numel (getShape x) \<noteq> 0 \<Longrightarrow> \<forall>s \<in> set (it_sh (initial x ds w)). 0 < s"
  by (auto simp: free_dims_props numel_pos)

lemma initial_N:
  assumes "accepted (getShape x) ds" and "numel (getShape x) \<noteq> 0"
  shows "it_N (initial x ds w) = Fin (of_nat (total_steps (getShape x) ds))"
proof -
  let ?shp = "getShape x"
  let ?a = "prod_list (map ((!) ?shp) ds)"
  let ?b = "prod_list (map ((!) ?shp) (free_dims (length ?shp) ds))"
  from assms(1) have sw: "sorted_wrt (<) ds" and bd: "\<forall>d \<in> set ds. d < length ?shp"
    by (simp_all add: accepted_def)
  have pos: "\<forall>d \<in> set ds. d < length ?shp \<and> 0 < ?shp ! d"
    using bd numel_pos [OF assms(2)] by blast
  have split: "prod_list ?shp = ?a * ?b" by (rule prod_shape_split [OF sw bd])
  have a0: "?a \<noteq> 0" using pos by (auto simp: prod_list_zero_iff)
  have "it_N (initial x ds w) = Fin (of_nat (numel ?shp) / of_nat ?a)"
    using fold_jsdiv_eq [OF pos] by (simp add: initial_def Let_def)
  also have "numel ?shp = ?a * ?b" using assms(2) split by (simp add: numel_def split: if_splits)
  also have "(of_nat (?a * ?b) :: rat) / of_nat ?a = of_nat ?b" using a0 by simp
  finally show ?thesis using assms(2) by (simp add: total_steps_def)
qed

lemma copy_ints_JInt [simp]: "copy_ints (JSArray (map JInt ds)) = ds"
  by (induction ds) auto

lemma isIntegerArray_iff:
  "isIntegerArray dims \<longleftrightarrow> (\<exists>ds. ds \<noteq> [] \<and> dims = JSArray (map JInt ds))"
proof
  assume a: "isIntegerArray dims"
  then obtain vs where vs: "dims = JSArray vs" "vs \<noteq> []"
      "list_all (\<lambda>v. case v of JInt _ \<Rightarrow> True | _ \<Rightarrow> False) vs"
    by (cases dims) auto
  from vs(3) have "\<exists>ds. vs = map JInt ds"
  proof (induction vs)
    case Nil
    show ?case by simp
  next
    case (Cons v vs)
    then obtain ds where "vs = map JInt ds" by auto
    moreover from Cons.prems obtain k where "v = JInt k" by (cases v) auto
    ultimately have "v # vs = map JInt (k # ds)" by simp
    then show ?case ..
  qed
  with vs show "\<exists>ds. ds \<noteq> [] \<and> dims = JSArray (map JInt ds)" by auto
next
  assume "\<exists>ds. ds \<noteq> [] \<and> dims = JSArray (map JInt ds)"
  then show "isIntegerArray dims" by (auto simp: list_all_iff)
qed

lemma accepted_normalized:
  assumes "\<not> length shp \<le> length ds0"
    and "\<forall>d \<in> set ds0. normalizeIndex d (int (length shp) - 1) \<noteq> - 1"
    and "sorted (normalized (length shp) ds0)" and "distinct (normalized (length shp) ds0)"
  shows "accepted shp (normalized (length shp) ds0)"
  using assms normalized_bound [OF assms(2)]
  by (auto simp: accepted_def strict_sorted_iff normalized_def)

lemma nditerStacks_Inr_args:
  assumes "nditerStacks x dims options = Inr it"
  shows "\<exists>xa ds0. x = Ndarray xa \<and> dims = JSArray (map JInt ds0)"
proof -
  from assms obtain xa where x: "x = Ndarray xa" by (cases x) (auto simp: nditerStacks_def)
  from assms x have "isIntegerArray dims" by (auto simp: nditerStacks_def split: if_splits)
  then show ?thesis using x unfolding isIntegerArray_iff by blast
qed

lemma nditerStacks_Inr:
  assumes "nditerStacks (Ndarray x) (JSArray (map JInt ds0)) options = Inr it"
  shows "ds0 \<noteq> [] \<and> accepted (getShape x) (normalized (length (getShape x)) ds0) \<and>
     (\<exists>w. check_options x options = Inr w \<and>
          it = initial x (normalized (length (getShape x)) ds0) w)"
proof -
  let ?n = "length (getShape x)"
  from assms have ia: "isIntegerArray (JSArray (map JInt ds0))"
    by (auto simp: nditerStacks_def split: if_splits)
  then have ne: "ds0 \<noteq> []" by auto
  from assms ia obtain w where w: "check_options x options = Inr w"
    and s: "setup_iterator x (copy_ints (JSArray (map JInt ds0))) w = Inr it"
    by (auto simp: nditerStacks_def split: sum.splits)
  from s have s': "setup_iterator x ds0 w = Inr it" unfolding copy_ints_JInt .
  from s' have ok: "\<not> ?n \<le> length ds0"
      "\<forall>d \<in> set ds0. normalizeIndex d (int ?n - 1) \<noteq> - 1"
      "sorted (normalized ?n ds0)" "distinct (normalized ?n ds0)"
      and it: "it = initial x (normalized ?n ds0) w"
    by (auto simp: setup_iterator_eq Let_def split: if_splits)
  from accepted_normalized [OF ok] ne w it show ?thesis by blast
qed


section \<open>Sequences of calls\<close>

lemma run_nexts:
  assumes wf: "well_formed it" and pos: "\<forall>s \<in> set (it_sh it). 0 < s"
    and N: "it_N it = Fin (of_nat P)"
  shows "run (cursor it (min a P) (int a - 1) False) (replicate k CallNext) =
     Inr (map (\<lambda>j. if j < P then view_result (view_at it j) else done_result) [a..<a + k],
          cursor it (min (a + k) P) (int (a + k) - 1) False)"
proof (induction k arbitrary: a)
  case 0
  show ?case by simp
next
  case (Suc k)
  have upt: "[a..<Suc (a + k)] = a # [Suc a..<Suc (a + k)]" by (simp add: upt_conv_Cons)
  have ge: "js_ge (int a - 1 + 1) (it_N it) \<longleftrightarrow> P \<le> a" by (simp add: N)
  show ?case
  proof (cases "a < P")
    case True
    then have m: "min a P = a" "min (Suc a) P = Suc a" by simp_all
    have "iter_next (cursor it a (int a - 1) False) =
          Inr (view_result (view_at it a), cursor it (Suc a) (int a - 1 + 1) False)"
      unfolding view_at_def using True ge by (intro iter_next_yield [OF wf pos]) simp_all
    then have st: "iter_next (cursor it a (int a - 1) False) =
          Inr (view_result (view_at it a), cursor it (Suc a) (int a) False)"
      by simp
    show ?thesis
      using Suc.IH [of "Suc a"] True by (simp add: st upt m del: upt_Suc)
  next
    case False
    then have m: "min a P = P" "min (Suc a) P = P" by simp_all
    have "iter_next (cursor it P (int a - 1) False) =
          Inr (done_result, cursor it P (int a - 1 + 1) False)"
      using False ge by (intro iter_next_done) simp
    then have st: "iter_next (cursor it P (int a - 1) False) =
          Inr (done_result, cursor it P (int a) False)"
      by simp
    show ?thesis
      using Suc.IH [of "Suc a"] False by (simp add: st upt m del: upt_Suc)
  qed
qed

lemma iter_end_cursor:
  "iter_end arg (cursor it y k f) =
     (case arg of Some v \<Rightarrow> \<lparr>res_value = Some (Passed v), res_done = True\<rparr> | None \<Rightarrow> done_result,
      cursor it y k True)"
  by (simp add: iter_end_def cursor_def split: option.splits)

lemma run_cursor:
  assumes wf: "well_formed it"
  shows "f \<or> ((\<forall>s \<in> set (it_sh it). 0 < s) \<and> it_N it = Fin (of_nat P)) \<Longrightarrow>
     y \<le> P \<Longrightarrow> (\<not> f \<longrightarrow> int y = min (k + 1) (int P)) \<Longrightarrow>
     \<exists>rs y' f'. run (cursor it y k f) (cs :: 'v call list) =
         Inr (rs, cursor it y' (k + int (count_list cs CallNext)) f') \<and>
       length rs = length cs \<and> y' = y + yields rs \<and> y' \<le> P \<and> (f \<longrightarrow> f') \<and>
       (\<not> f' \<longrightarrow> int y' = min (k + int (count_list cs CallNext) + 1) (int P)) \<and>
       (\<forall>r \<in> set rs. \<forall>v. res_value r = Some (View v) \<longrightarrow> (\<exists>j < P. v = view_at it j))"
proof (induction cs arbitrary: y k f)
  case Nil
  then show ?case
    by (intro exI [of _ "[]"] exI [of _ y] exI [of _ f]) (simp add: yields_def)
next
  case (Cons c cs)
  show ?case
  proof (cases c)
    case (CallReturn arg)
    have "\<exists>rs y' f'. run (cursor it y k True) cs =
         Inr (rs, cursor it y' (k + int (count_list cs CallNext)) f') \<and>
       length rs = length cs \<and> y' = y + yields rs \<and> y' \<le> P \<and> (True \<longrightarrow> f') \<and>
       (\<not> f' \<longrightarrow> int y' = min (k + int (count_list cs CallNext) + 1) (int P)) \<and>
       (\<forall>r \<in> set rs. \<forall>v. res_value r = Some (View v) \<longrightarrow> (\<exists>j < P. v = view_at it j))"
      by (rule Cons.IH) (use Cons.prems in simp_all)
    then obtain rs y' f' where r: "run (cursor it y k True) cs =
        Inr (rs, cursor it y' (k + int (count_list cs CallNext)) f')"
      "length rs = length cs" "y' = y + yields rs" "y' \<le> P" "f'"
      "\<forall>r \<in> set rs. \<forall>v. res_value r = Some (View v) \<longrightarrow> (\<exists>j < P. v = view_at it j)"
      by blast
    obtain r0 :: "'v iter_result"
      where e: "iter_end arg (cursor it y k f) = (r0, cursor it y k True)" "res_done r0"
        "\<forall>v. res_value r0 \<noteq> Some (View v)"
      by (cases arg) (simp_all add: iter_end_cursor)
    show ?thesis
      by (intro exI [of _ "r0 # rs"] exI [of _ y'] exI [of _ f'])
        (use r CallReturn e in \<open>simp add: yields_def\<close>)
  next
    case CallNext
    show ?thesis
    proof (cases "f \<or> js_ge (k + 1) (it_N it)")
      case True
      have st: "iter_next (cursor it y k f) =
                Inr (done_result :: 'v iter_result, cursor it y (k + 1) f)"
        by (rule iter_next_done [OF True])
      have inv: "\<not> f \<longrightarrow> int y = min (k + 1 + 1) (int P)"
        using True Cons.prems by auto
      from Cons.IH [OF Cons.prems(1,2) inv]
      obtain rs y' f' where r: "run (cursor it y (k + 1) f) cs =
          Inr (rs, cursor it y' (k + 1 + int (count_list cs CallNext)) f')"
        "length rs = length cs" "y' = y + yields rs" "y' \<le> P" "f \<longrightarrow> f'"
        "\<not> f' \<longrightarrow> int y' = min (k + 1 + int (count_list cs CallNext) + 1) (int P)"
        "\<forall>r \<in> set rs. \<forall>v. res_value r = Some (View v) \<longrightarrow> (\<exists>j < P. v = view_at it j)"
        by blast
      have cnt: "k + int (count_list (c # cs) CallNext) = k + 1 + int (count_list cs CallNext)"
        using CallNext by simp
      show ?thesis
        unfolding cnt
        by (intro exI [of _ "done_result # rs"] exI [of _ y'] exI [of _ f'])
          (use r CallNext st in \<open>simp add: yields_def\<close>)
    next
      case False
      with Cons.prems have pos: "\<forall>s \<in> set (it_sh it). 0 < s" and N: "it_N it = Fin (of_nat P)"
        and nf: "\<not> f" by auto
      from False N have lt: "k + 1 < int P" by simp
      have st: "iter_next (cursor it y k f) =
                Inr (view_result (view_at it y) :: 'v iter_result, cursor it (Suc y) (k + 1) f)"
        unfolding view_at_def using False by (intro iter_next_yield [OF wf pos]) simp_all
      have y: "int y = k + 1" using Cons.prems(3) nf lt by simp
      have a: "Suc y \<le> P" using y lt by simp
      have yP: "\<exists>j < P. view_at it y = view_at it j"
        by (rule exI [of _ y]) (use a in simp)
      have inv: "\<not> f \<longrightarrow> int (Suc y) = min (k + 1 + 1) (int P)" using y lt by simp
      from Cons.IH [OF Cons.prems(1) a inv]
      obtain rs y' f' where r: "run (cursor it (Suc y) (k + 1) f) cs =
          Inr (rs, cursor it y' (k + 1 + int (count_list cs CallNext)) f')"
        "length rs = length cs" "y' = Suc y + yields rs" "y' \<le> P" "f \<longrightarrow> f'"
        "\<not> f' \<longrightarrow> int y' = min (k + 1 + int (count_list cs CallNext) + 1) (int P)"
        "\<forall>r \<in> set rs. \<forall>v. res_value r = Some (View v) \<longrightarrow> (\<exists>j < P. v = view_at it j)"
        by blast
      have cnt: "k + int (count_list (c # cs) CallNext) = k + 1 + int (count_list cs CallNext)"
        using CallNext by simp
      show ?thesis
        unfolding cnt
        by (intro exI [of _ "view_result (view_at it y) # rs"] exI [of _ y'] exI [of _ f'])
          (use r CallNext st yP in \<open>simp add: yields_def\<close>)
    qed
  qed
qed

lemma js_ge_mono: "js_ge k n \<Longrightarrow> k \<le> k' \<Longrightarrow> js_ge k' n"
  by (cases n) auto

lemma iter_next_exhausted:
  "exhausted it \<Longrightarrow> iter_next it = Inr (done_result, it\<lparr>it_i := it_i it + 1\<rparr>)"
  by (auto simp: exhausted_def iter_next_def Let_def)

lemma exhausted_step: "exhausted it \<Longrightarrow> exhausted (it\<lparr>it_i := it_i it + 1\<rparr>)"
  by (auto simp: exhausted_def intro: js_ge_mono)

lemma iter_next_done_exhausted:
  assumes "iter_next it = Inr (r, it')" and "res_done r"
  shows "exhausted it'"
proof (cases "exhausted it")
  case True
  with assms(1) have "it' = it\<lparr>it_i := it_i it + 1\<rparr>" by (simp add: iter_next_exhausted)
  with True show ?thesis by (simp add: exhausted_step)
next
  case False
  with assms show ?thesis
    by (auto simp: exhausted_def iter_next_def Let_def split: sum.splits option.splits)
qed

lemma iter_end_exhausted: "exhausted (snd (iter_end arg it))"
  by (simp add: iter_end_def exhausted_def Let_def split: option.splits)

lemma run_exhausted:
  "exhausted it \<Longrightarrow>
   \<exists>rs it'. run it cs = Inr (rs, it') \<and> exhausted it' \<and> length rs = length cs \<and>
     (\<forall>r \<in> set rs. res_done r) \<and>
     (\<forall>j < length cs. cs ! j = CallNext \<longrightarrow> res_value (rs ! j) = None)"
proof (induction cs arbitrary: it)
  case Nil
  then show ?case by simp
next
  case (Cons c cs)
  show ?case
  proof (cases c)
    case CallNext
    from Cons.IH [OF exhausted_step [OF Cons.prems]]
    obtain rs it' where r: "run (it\<lparr>it_i := it_i it + 1\<rparr>) cs = Inr (rs, it')" "exhausted it'"
      "length rs = length cs" "\<forall>r \<in> set rs. res_done r"
      "\<forall>j < length cs. cs ! j = CallNext \<longrightarrow> res_value (rs ! j) = None"
      by blast
    have "\<forall>j < length (c # cs). (c # cs) ! j = CallNext \<longrightarrow>
            res_value ((done_result # rs) ! j) = None"
      using r(5) by (auto simp: nth_Cons split: nat.splits)
    then show ?thesis
      using r CallNext by (simp add: iter_next_exhausted [OF Cons.prems])
  next
    case (CallReturn arg)
    obtain r0 it0 where e: "iter_end arg it = (r0, it0)" by (cases "iter_end arg it")
    then have ex: "exhausted it0" "res_done r0"
      using iter_end_exhausted [of arg it] by (auto simp: iter_end_def Let_def split: option.splits)
    from Cons.IH [OF ex(1)]
    obtain rs it' where r: "run it0 cs = Inr (rs, it')" "exhausted it'"
      "length rs = length cs" "\<forall>r \<in> set rs. res_done r"
      "\<forall>j < length cs. cs ! j = CallNext \<longrightarrow> res_value (rs ! j) = None"
      by blast
    have "\<forall>j < length (c # cs). (c # cs) ! j = CallNext \<longrightarrow>
            res_value ((r0 # rs) ! j) = None"
      using r(5) CallReturn by (auto simp: nth_Cons split: nat.splits)
    then show ?thesis
      using r CallReturn e ex by simp
  qed
qed


section \<open>The properties of the specification\<close>

lemma done_flags:
  "map (\<lambda>j. \<not> j < P) [0..<k] = replicate (min k P) False @ replicate (k - P) True"
  by (rule nth_equalityI) (auto simp: nth_append)

lemma constructed:
  assumes "nditerStacks (Ndarray x) (JSArray (map JInt ds0)) options = Inr it"
  shows "it_x it = x \<and> it_dims it = normalized (length (getShape x)) ds0 \<and>
     accepted (getShape x) (it_dims it) \<and> well_formed it \<and>
     it = cursor it 0 (- 1) (numel (getShape x) = 0) \<and>
     (numel (getShape x) \<noteq> 0 \<longrightarrow> (\<forall>s \<in> set (it_sh it). 0 < s) \<and>
        it_N it = Fin (of_nat (total_steps (getShape x) (it_dims it))))"
proof -
  let ?ds = "normalized (length (getShape x)) ds0"
  from nditerStacks_Inr [OF assms] obtain w where acc: "accepted (getShape x) ?ds"
    and it: "it = initial x ?ds w" by blast
  have "well_formed it" using it acc by (simp add: initial_well_formed)
  moreover have "it = cursor it 0 (- 1) (numel (getShape x) = 0)"
    using initial_cursor [OF acc] it by simp
  moreover have "numel (getShape x) \<noteq> 0 \<longrightarrow> (\<forall>s \<in> set (it_sh it). 0 < s) \<and>
       it_N it = Fin (of_nat (total_steps (getShape x) ?ds))"
    using initial_pos [of x ?ds w] initial_N [OF acc, of w] it by simp
  ultimately show ?thesis using acc it by simp
qed

lemma constructed_run_cursor:
  assumes "nditerStacks (Ndarray x) (JSArray (map JInt ds0)) options = Inr it"
  shows "\<exists>rs y' f'. run it (cs :: 'v call list) =
         Inr (rs, cursor it y' (int (count_list cs CallNext) - 1) f') \<and>
       length rs = length cs \<and> y' = yields rs \<and> y' \<le> total_steps (getShape x) (it_dims it) \<and>
       (\<forall>r \<in> set rs. \<forall>v. res_value r = Some (View v) \<longrightarrow>
          (\<exists>j < total_steps (getShape x) (it_dims it). v = view_at it j))"
proof -
  let ?P = "total_steps (getShape x) (it_dims it)"
  let ?f = "numel (getShape x) = 0"
  from constructed [OF assms] have wf: "well_formed it"
    and cur: "it = cursor it 0 (- 1) ?f"
    and a: "?f \<or> ((\<forall>s \<in> set (it_sh it). 0 < s) \<and> it_N it = Fin (of_nat ?P))"
    by blast+
  have "\<exists>rs y' f'. run (cursor it 0 (- 1) ?f) cs =
         Inr (rs, cursor it y' (- 1 + int (count_list cs CallNext)) f') \<and>
       length rs = length cs \<and> y' = 0 + yields rs \<and> y' \<le> ?P \<and> (?f \<longrightarrow> f') \<and>
       (\<not> f' \<longrightarrow> int y' = min (- 1 + int (count_list cs CallNext) + 1) (int ?P)) \<and>
       (\<forall>r \<in> set rs. \<forall>v. res_value r = Some (View v) \<longrightarrow> (\<exists>j < ?P. v = view_at it j))"
    by (rule run_cursor [OF wf a]) simp_all
  then obtain rs y' f' where r: "run (cursor it 0 (- 1) ?f) cs =
         Inr (rs, cursor it y' (- 1 + int (count_list cs CallNext)) f')"
       "length rs = length cs" "y' = 0 + yields rs" "y' \<le> ?P"
       "\<forall>r \<in> set rs. \<forall>v. res_value r = Some (View v) \<longrightarrow> (\<exists>j < ?P. v = view_at it j)"
    by blast
  from r(1) have "run it cs = Inr (rs, cursor it y' (int (count_list cs CallNext) - 1) f')"
    using cur by (simp add: add.commute)
  with r(2-5) show ?thesis by auto
qed

lemma constructed_nexts:
  assumes "nditerStacks (Ndarray x) (JSArray (map JInt ds0)) options = Inr it"
    and "numel (getShape x) \<noteq> 0"
  shows "run it (replicate k CallNext) =
     Inr (map (\<lambda>j. if j < total_steps (getShape x) (it_dims it) then view_result (view_at it j)
                    else (done_result :: 'v iter_result)) [0..<k],
          cursor it (min k (total_steps (getShape x) (it_dims it))) (int k - 1) False)"
proof -
  let ?P = "total_steps (getShape x) (it_dims it)"
  from constructed [OF assms(1)] assms(2) have wf: "well_formed it"
    and cur: "it = cursor it 0 (- 1) False"
    and pos: "\<forall>s \<in> set (it_sh it). 0 < s" and N: "it_N it = Fin (of_nat ?P)"
    by auto
  have "run (cursor it (min 0 ?P) (int 0 - 1) False) (replicate k CallNext) =
     Inr (map (\<lambda>j. if j < ?P then view_result (view_at it j) else (done_result :: 'v iter_result))
            [0..<0 + k],
          cursor it (min (0 + k) ?P) (int (0 + k) - 1) False)"
    by (rule run_nexts [OF wf pos N])
  moreover have "cursor it (min 0 ?P) (int 0 - 1) False = it" using cur by simp
  ultimately show ?thesis by simp
qed



lemma view_slice_view_at:
  "view_slice (view_at it y) =
     stack_slice (length (getShape (it_x it))) (it_indices it) (unravel (it_sh it) y)"
  by (simp add: view_at_def stack_view_def Let_def)

lemma view_writable_view_at [simp]: "view_writable (view_at it y) = it_writable it"
  by (simp add: view_at_def stack_view_def Let_def)

lemma view_of_view_at [simp]: "view_of (view_at it y) = it_x it"
  by (simp add: view_at_def stack_view_def Let_def)

lemma stack_slice_stacked:
  "d < n \<Longrightarrow> d \<notin> set free \<Longrightarrow> length c = length free \<Longrightarrow> stack_slice n free c ! d = None"
  by (simp add: stack_slice_def map_of_zip_stacked)

lemma stack_slice_free:
  "distinct free \<Longrightarrow> length c = length free \<Longrightarrow> m < length free \<Longrightarrow> free ! m < n \<Longrightarrow>
   stack_slice n free c ! (free ! m) = Some (c ! m)"
  by (simp add: stack_slice_def map_of_zip_free)

text \<open>
  Claim C2 (slice specification, row-major order). For a constructed iterator and
  \<open>k\<close> below the number of steps, the call number \<open>k\<close> of \<^verbatim>\<open>next\<close> (counted from zero)
  returns a view whose slice has one entry for each dimension of the array: the full range
  (\<open>None\<close>) at every stacked dimension, and at the \<open>m\<close>-th free dimension the \<open>m\<close>-th
  coordinate of the row-major unravelling of \<open>k\<close> over the extents of the free dimensions.
  The unravelling of \<open>0\<close> is the all-zeros coordinate, and the unravellings of
  \<open>0, 1, 2, \<dots>\<close> are all coordinates in lexicographic order, the last free dimension
  varying fastest.
\<close>

theorem row_major_slices:
  assumes "nditerStacks (Ndarray x) (JSArray (map JInt ds0)) options = Inr it"
    and "k < total_steps (getShape x) (it_dims it)"
  shows "\<exists>rs it' v. run it (replicate (Suc k) CallNext) = Inr (rs :: 'v iter_result list, it') \<and>
      rs ! k = view_result v \<and>
      length (view_slice v) = length (getShape x) \<and>
      (\<forall>d \<in> set (it_dims it). view_slice v ! d = None) \<and>
      (\<forall>m < length (it_indices it).
         view_slice v ! (it_indices it ! m) = Some (unravel (it_sh it) k ! m)) \<and>
      it_indices it = free_dims (length (getShape x)) (it_dims it) \<and>
      it_sh it = map ((!) (getShape x)) (it_indices it) \<and>
      unravel (it_sh it) 0 = replicate (length (it_sh it)) 0 \<and>
      map (unravel (it_sh it)) [0..<total_steps (getShape x) (it_dims it)] =
        product_lists (map (\<lambda>s. [0..<s]) (it_sh it))"
proof -
  let ?n = "length (getShape x)"
  let ?P = "total_steps (getShape x) (it_dims it)"
  let ?free = "it_indices it"
  let ?c = "unravel (it_sh it) k"
  from assms(2) have ne: "numel (getShape x) \<noteq> 0" by (auto simp: total_steps_def split: if_splits)
  from nditerStacks_Inr [OF assms(1)] obtain w
    where it: "it = initial x (normalized ?n ds0) w" by blast
  from constructed [OF assms(1)] have x: "it_x it = x" and acc: "accepted (getShape x) (it_dims it)"
    and wf: "well_formed it" by blast+
  have free: "?free = free_dims ?n (it_dims it)" using it by simp
  have sh: "it_sh it = map ((!) (getShape x)) ?free" using it by simp
  have P: "?P = prod_list (it_sh it)" using ne sh free by (simp add: total_steps_def)
  from wf x have d: "distinct ?free" and b: "\<forall>j \<in> set ?free. j < ?n"
    by (simp_all add: well_formed_def)
  have len: "length ?c = length ?free" using sh by simp
  have run: "run it (replicate (Suc k) CallNext) =
     Inr (map (\<lambda>j. if j < ?P then view_result (view_at it j) else (done_result :: 'v iter_result))
            [0..<Suc k],
          cursor it (min (Suc k) ?P) (int (Suc k) - 1) False)"
    by (rule constructed_nexts [OF assms(1) ne])
  have nth: "map (\<lambda>j. if j < ?P then view_result (view_at it j) else (done_result :: 'v iter_result))
               [0..<Suc k] ! k = view_result (view_at it k)"
    using assms(2) by (simp add: nth_append)
  have sl: "view_slice (view_at it k) = stack_slice ?n ?free ?c"
    using x by (simp add: view_slice_view_at)
  have l: "length (view_slice (view_at it k)) = ?n" by (simp add: sl stack_slice_def)
  have st: "\<forall>d \<in> set (it_dims it). view_slice (view_at it k) ! d = None"
  proof
    fix d assume dd: "d \<in> set (it_dims it)"
    then have "d < ?n" using acc by (simp add: accepted_def)
    moreover have "d \<notin> set ?free" using dd free by (simp add: free_dims_props)
    ultimately show "view_slice (view_at it k) ! d = None"
      using len by (simp add: sl stack_slice_stacked)
  qed
  have fr: "\<forall>m < length ?free. view_slice (view_at it k) ! (?free ! m) = Some (?c ! m)"
  proof (intro allI impI)
    fix m assume m: "m < length ?free"
    then have "?free ! m < ?n" using b by simp
    with m show "view_slice (view_at it k) ! (?free ! m) = Some (?c ! m)"
      using d len by (simp add: sl stack_slice_free)
  qed
  have enum: "map (unravel (it_sh it)) [0..<?P] = product_lists (map (\<lambda>s. [0..<s]) (it_sh it))"
    unfolding P by (rule unravel_enumerates)
  show ?thesis
    by (intro exI [of _ "map (\<lambda>j. if j < ?P then view_result (view_at it j)
                                    else (done_result :: 'v iter_result)) [0..<Suc k]"]
              exI [of _ "cursor it (min (Suc k) ?P) (int (Suc k) - 1) False"]
              exI [of _ "view_at it k"] conjI run nth l st fr free sh unravel_zero enum)
qed

theorem row_major_slices_witness:
  "nditerStacks (Ndarray \<lparr>getShape = [2, 3, 2], isReadOnly = False\<rparr>)
       (JSArray (map JInt [1])) None =
     Inr \<lparr>it_x = \<lparr>getShape = [2, 3, 2], isReadOnly = False\<rparr>, it_dims = [1],
          it_writable = False, it_N = Fin 4, it_FLG = False, it_idx = [Num 0, Null, Num 0],
          it_indices = [0, 2], it_sh = [2, 2], it_ibuf = [Num 0, Num 0], it_i = - 1\<rparr> \<and>
   (2 :: nat) < total_steps [2, 3, 2] [1] \<and> unravel [2, 2] 2 = [1, 0] \<and>
   (\<exists>rs it' v. run \<lparr>it_x = \<lparr>getShape = [2, 3, 2], isReadOnly = False\<rparr>, it_dims = [1],
          it_writable = False, it_N = Fin 4, it_FLG = False, it_idx = [Num 0, Null, Num 0],
          it_indices = [0, 2], it_sh = [2, 2], it_ibuf = [Num 0, Num 0], it_i = - 1\<rparr>
        (replicate 3 CallNext) = Inr (rs :: unit iter_result list, it') \<and>
      rs ! 2 = view_result v \<and> length (view_slice v) = 3 \<and> view_slice v ! 1 = None \<and>
      view_slice v ! 0 = Some 1 \<and> view_slice v ! 2 = Some 0)"
proof -
  let ?x = "\<lparr>getShape = [2, 3, 2], isReadOnly = False\<rparr>"
  let ?it = "\<lparr>it_x = ?x, it_dims = [1],
          it_writable = False, it_N = Fin 4, it_FLG = False, it_idx = [Num 0, Null, Num 0],
          it_indices = [0, 2], it_sh = [2, 2], it_ibuf = [Num 0, Num 0], it_i = - 1\<rparr>"
  have h: "nditerStacks (Ndarray ?x) (JSArray (map JInt [1])) None = Inr ?it"
    by code_simp
  have t: "(2 :: nat) < total_steps [2, 3, 2] [1]" by code_simp
  have t': "2 < total_steps (getShape ?x) (it_dims ?it)" using t by simp
  have u: "unravel [2, 2] 2 = [1, 0]" by code_simp
  from row_major_slices [OF h t', where 'v = unit]
  obtain rs :: "unit iter_result list" and it' v where
    r: "run ?it (replicate (Suc 2) CallNext) = Inr (rs, it')" "rs ! 2 = view_result v"
      "length (view_slice v) = length (getShape ?x)"
      "\<forall>d \<in> set (it_dims ?it). view_slice v ! d = None"
      "\<forall>m < length (it_indices ?it).
         view_slice v ! (it_indices ?it ! m) = Some (unravel (it_sh ?it) 2 ! m)"
    by blast
  have r1: "run ?it (replicate 3 CallNext) = Inr (rs, it')"
    using r(1) by (simp add: numeral_3_eq_3)
  have l: "length (view_slice v) = 3" using r(3) by simp
  have s1: "view_slice v ! 1 = None" using r(4) by simp
  have s0: "view_slice v ! 0 = Some 1" using r(5) [rule_format, of 0] u by simp
  have s2: "view_slice v ! 2 = Some 0" using r(5) [rule_format, of 1] u by simp
  have "\<exists>rs it' v. run ?it (replicate 3 CallNext) = Inr (rs :: unit iter_result list, it') \<and>
      rs ! 2 = view_result v \<and> length (view_slice v) = 3 \<and> view_slice v ! 1 = None \<and>
      view_slice v ! 0 = Some 1 \<and> view_slice v ! 2 = Some 0"
    using r1 r(2) l s1 s0 s2 by blast
  then show ?thesis using h t u by blast
qed

lemma normalizeIndex_of_nat: "d < n \<Longrightarrow> normalizeIndex (int d) (int n - 1) = int d"
  by (simp add: normalizeIndex_def)

lemma normalized_of_nat: "\<forall>d \<in> set ds. d < n \<Longrightarrow> normalized n (map int ds) = ds"
  by (induction ds) (simp_all add: normalized_def normalizeIndex_of_nat)

lemma check_options_writable_object:
  "check_options x (Some (PlainObject [(''writable'', v)])) = Inr False"
  by (simp add: check_options_def)

lemma factory_constructed:
  assumes "nditerStacks (Ndarray x) (JSArray (map JInt ds0)) options = Inr it"
  shows "factory (cursor it y k f) = Inr (it\<lparr>it_writable := False\<rparr>)"
proof -
  let ?n = "length (getShape x)"
  let ?ds = "normalized ?n ds0"
  from nditerStacks_Inr [OF assms] obtain w where ne: "ds0 \<noteq> []"
    and acc: "accepted (getShape x) ?ds" and it: "it = initial x ?ds w" by blast
  from acc have sw: "sorted_wrt (<) ?ds" and bd: "\<forall>d \<in> set ?ds. d < ?n"
    and len: "length ?ds < ?n" by (simp_all add: accepted_def)
  have ne': "?ds \<noteq> []" using ne by (simp add: normalized_def)
  have norm: "normalized ?n (map int ?ds) = ?ds" by (rule normalized_of_nat [OF bd])
  have ok: "\<forall>d \<in> set (map int ?ds). normalizeIndex d (int ?n - 1) \<noteq> - 1"
    using bd by (auto simp: normalizeIndex_of_nat)
  have s: "setup_iterator x (map int ?ds) False = Inr (initial x ?ds False)"
    using len ok sw by (simp add: setup_iterator_eq Let_def norm strict_sorted_iff)
  have arr: "map (\<lambda>d. JInt (int d)) ?ds = map JInt (map int ?ds)" by simp
  have ia: "isIntegerArray (JSArray (map JInt (map int ?ds)))"
    using ne' by (simp add: list_all_iff)
  have "factory (cursor it y k f) =
        nditerStacks (Ndarray x) (JSArray (map JInt (map int ?ds)))
          (Some (PlainObject [(''writable'', JBool w)]))"
    using it by (simp add: factory_def arr del: map_map)
  also have "\<dots> = setup_iterator x (map int ?ds) False"
    using ia
    by (simp add: nditerStacks_def check_options_writable_object copy_ints_JInt
          del: isIntegerArray.simps copy_ints.simps map_map)
  also have "\<dots> = Inr (it\<lparr>it_writable := False\<rparr>)"
    using s it by (simp add: initial_def Let_def)
  finally show ?thesis .
qed

text \<open>
  Claim C3 (re-iteration factory). The factory, called on a constructed iterator in
  whatever state a sequence of calls has left it, returns the iterator that the
  construction returned at first, with the same array, the same normalized dimensions and
  a fresh cursor, except that its \<^verbatim>\<open>writable\<close> setting is always false: the options object
  handed to the new call has a \<^verbatim>\<open>writable\<close> property and no \<^verbatim>\<open>readonly\<close> property, so the
  setting of the original is not carried over.
\<close>

theorem factory_fresh_but_read_only:
  assumes "nditerStacks (Ndarray x) (JSArray (map JInt ds0)) options = Inr it"
    and "run it cs = Inr (rs :: 'v iter_result list, it')"
  shows "factory it' = Inr (it\<lparr>it_writable := False\<rparr>)"
proof -
  from constructed_run_cursor [OF assms(1), of cs] assms(2)
  obtain y' f' where "it' = cursor it y' (int (count_list cs CallNext) - 1) f'" by auto
  then show ?thesis by (simp add: factory_constructed [OF assms(1)])
qed

theorem factory_fresh_but_read_only_witness:
  "nditerStacks (Ndarray \<lparr>getShape = [2, 2], isReadOnly = False\<rparr>) (JSArray (map JInt [1]))
       (Some (PlainObject [(''readonly'', JBool False)])) =
     Inr \<lparr>it_x = \<lparr>getShape = [2, 2], isReadOnly = False\<rparr>, it_dims = [1],
          it_writable = True, it_N = Fin 2, it_FLG = False, it_idx = [Num 0, Null],
          it_indices = [0], it_sh = [2], it_ibuf = [Num 0], it_i = - 1\<rparr> \<and>
   run \<lparr>it_x = \<lparr>getShape = [2, 2], isReadOnly = False\<rparr>, it_dims = [1],
          it_writable = True, it_N = Fin 2, it_FLG = False, it_idx = [Num 0, Null],
          it_indices = [0], it_sh = [2], it_ibuf = [Num 0], it_i = - 1\<rparr> [CallNext] =
     Inr ([view_result \<lparr>view_of = \<lparr>getShape = [2, 2], isReadOnly = False\<rparr>,
                        view_slice = [Some 0, None], view_shape = [2],
                        view_writable = True\<rparr> :: unit iter_result],
          \<lparr>it_x = \<lparr>getShape = [2, 2], isReadOnly = False\<rparr>, it_dims = [1],
          it_writable = True, it_N = Fin 2, it_FLG = False, it_idx = [Num 1, Null],
          it_indices = [0], it_sh = [2], it_ibuf = [Num 1], it_i = 0\<rparr>) \<and>
   factory \<lparr>it_x = \<lparr>getShape = [2, 2], isReadOnly = False\<rparr>, it_dims = [1],
          it_writable = True, it_N = Fin 2, it_FLG = False, it_idx = [Num 1, Null],
          it_indices = [0], it_sh = [2], it_ibuf = [Num 1], it_i = 0\<rparr> =
     Inr \<lparr>it_x = \<lparr>getShape = [2, 2], isReadOnly = False\<rparr>, it_dims = [1],
          it_writable = False, it_N = Fin 2, it_FLG = False, it_idx = [Num 0, Null],
          it_indices = [0], it_sh = [2], it_ibuf = [Num 0], it_i = - 1\<rparr>"
proof -
  let ?x = "\<lparr>getShape = [2, 2], isReadOnly = False\<rparr>"
  let ?it = "\<lparr>it_x = ?x, it_dims = [1],
          it_writable = True, it_N = Fin 2, it_FLG = False, it_idx = [Num 0, Null],
          it_indices = [0], it_sh = [2], it_ibuf = [Num 0], it_i = - 1\<rparr>"
  let ?it' = "\<lparr>it_x = ?x, it_dims = [1],
          it_writable = True, it_N = Fin 2, it_FLG = False, it_idx = [Num 1, Null],
          it_indices = [0], it_sh = [2], it_ibuf = [Num 1], it_i = 0\<rparr>"
  have h: "nditerStacks (Ndarray ?x) (JSArray (map JInt [1]))
       (Some (PlainObject [(''readonly'', JBool False)])) = Inr ?it"
    by code_simp
  have r: "run ?it [CallNext] =
     Inr ([view_result \<lparr>view_of = ?x, view_slice = [Some 0, None], view_shape = [2],
                        view_writable = True\<rparr> :: unit iter_result], ?it')"
    by code_simp
  have "factory ?it' = Inr (?it\<lparr>it_writable := False\<rparr>)"
    by (rule factory_fresh_but_read_only [OF h r])
  then have f: "factory ?it' = Inr \<lparr>it_x = ?x, it_dims = [1],
          it_writable = False, it_N = Fin 2, it_FLG = False, it_idx = [Num 0, Null],
          it_indices = [0], it_sh = [2], it_ibuf = [Num 0], it_i = - 1\<rparr>"
    by simp
  show ?thesis by (rule conjI [OF h conjI [OF r f]])
qed

lemma check_options_errors:
  "check_options x options = Inl e \<Longrightarrow>
   e \<in> {OptionsTypeError, ReadonlyOptionTypeError, ReadOnlyWriteError}"
  by (auto simp: check_options_def split: option.splits arg3.splits jsvalue.splits if_splits)

lemma nditerStacks_eq:
  "nditerStacks (Ndarray x) (JSArray (map JInt ds0)) options =
     (if ds0 = [] then Inl NotIntegerArrayError
      else (case check_options x options of
        Inl e \<Rightarrow> Inl e
      | Inr w \<Rightarrow> setup_iterator x ds0 w))"
proof -
  have "isIntegerArray (JSArray (map JInt ds0)) \<longleftrightarrow> ds0 \<noteq> []"
    by (simp add: list_all_iff)
  then show ?thesis
    by (simp add: nditerStacks_def copy_ints_JInt del: isIntegerArray.simps copy_ints.simps
          split: sum.splits)
qed




text \<open>
  Claim C5 (ordering and uniqueness errors), as amended. For a dimension list that
  passes the earlier checks: when its normalized form is not sorted in non-decreasing order
  (some index is greater than its successor), the construction fails with the ordering
  error; when it is sorted in non-decreasing order but not strictly, that is, when it
  repeats an index as \<open>[1, 1]\<close> does, the construction fails with the uniqueness error.
\<close>

theorem ordering_then_uniqueness:
  assumes "check_options x options = Inr w" and "ds0 \<noteq> []"
    and "length ds0 < length (getShape x)"
    and "\<forall>d \<in> set ds0. normalizeIndex d (int (length (getShape x)) - 1) \<noteq> - 1"
  shows "(\<not> sorted (normalized (length (getShape x)) ds0) \<longrightarrow>
            nditerStacks (Ndarray x) (JSArray (map JInt ds0)) options = Inl OrderingError) \<and>
         (sorted (normalized (length (getShape x)) ds0) \<and>
          \<not> distinct (normalized (length (getShape x)) ds0) \<longrightarrow>
            nditerStacks (Ndarray x) (JSArray (map JInt ds0)) options = Inl UniquenessError)"
proof -
  have ia: "isIntegerArray (JSArray (map JInt ds0))"
    using assms(2) by (simp add: list_all_iff)
  have "nditerStacks (Ndarray x) (JSArray (map JInt ds0)) options = setup_iterator x ds0 w"
    using ia assms(1)
    by (simp add: nditerStacks_def copy_ints_JInt del: isIntegerArray.simps copy_ints.simps)
  then show ?thesis using assms(3,4) by (simp add: setup_iterator_eq Let_def)
qed

theorem ordering_then_uniqueness_witness:
  "normalized 3 [- 2, 1] = [1, 1] \<and> sorted [1 :: nat, 1] \<and> \<not> distinct [1 :: nat, 1] \<and>
   nditerStacks (Ndarray \<lparr>getShape = [2, 2, 2], isReadOnly = False\<rparr>) (JSArray (map JInt [- 2, 1]))
     None = Inl UniquenessError"
proof -
  let ?x = "\<lparr>getShape = [2, 2, 2], isReadOnly = False\<rparr>"
  have c: "check_options ?x None = Inr False" by code_simp
  have n: "normalized 3 [- 2, 1] = [1, 1]" by code_simp
  have r: "\<forall>d \<in> set [- 2, 1 :: int]. normalizeIndex d (int (length (getShape ?x)) - 1) \<noteq> - 1"
    by (simp add: normalizeIndex_def)
  have s: "sorted [1 :: nat, 1]" "\<not> distinct [1 :: nat, 1]" by simp_all
  have "sorted (normalized (length (getShape ?x)) [- 2, 1]) \<and>
          \<not> distinct (normalized (length (getShape ?x)) [- 2, 1]) \<longrightarrow>
        nditerStacks (Ndarray ?x) (JSArray (map JInt [- 2, 1])) None = Inl UniquenessError"
    by (rule ordering_then_uniqueness [OF c _ _ r, THEN conjunct2]) simp_all
  moreover have "normalized (length (getShape ?x)) [- 2, 1] = [1, 1]" by code_simp
  ultimately have "nditerStacks (Ndarray ?x) (JSArray (map JInt [- 2, 1])) None =
      Inl UniquenessError"
    by (simp only: s simp_thms)
  with n s show ?thesis by blast
qed

theorem equal_neighbours_counterexample:
  "\<not> sorted_wrt (<) (normalized 3 [1, 1]) \<and>
   nditerStacks (Ndarray \<lparr>getShape = [2, 2, 2], isReadOnly = False\<rparr>) (JSArray [JInt 1, JInt 1])
     None = Inl UniquenessError"
  by code_simp




lemma zero_extent_stacked:
  "nditerStacks (Ndarray \<lparr>getShape = [2, 0], isReadOnly = False\<rparr>) (JSArray [JInt 1]) None =
     Inr \<lparr>it_x = \<lparr>getShape = [2, 0], isReadOnly = False\<rparr>, it_dims = [1],
          it_writable = False, it_N = NaN, it_FLG = True, it_idx = [Num 0, Null],
          it_indices = [0], it_sh = [2], it_ibuf = [Num 0], it_i = - 1\<rparr>"
  by code_simp

lemma done_result_eq: "res_done r \<Longrightarrow> res_value r = None \<Longrightarrow> r = (done_result :: 'v iter_result)"
  by (cases r) simp

text \<open>
  Claim C7 (idempotent termination). For an iterator in any state: once a call of
  \<^verbatim>\<open>next\<close> or \<^verbatim>\<open>return\<close> has returned a result with \<^verbatim>\<open>done: true\<close>, every further sequence of
  calls succeeds, every result in it has \<^verbatim>\<open>done: true\<close>, and every call of \<^verbatim>\<open>next\<close> in it
  returns \<^verbatim>\<open>done: true\<close> without a value. A call of \<^verbatim>\<open>return\<close> never fails and always reports
  \<^verbatim>\<open>done: true\<close>, whatever the state, so it may be repeated and may precede any advance.
\<close>

theorem done_is_permanent:
  assumes "call_method c it = Inr (r, it1)" and "res_done r"
  shows "(\<exists>rs it2. run it1 cs = Inr (rs :: 'v iter_result list, it2) \<and> length rs = length cs \<and>
            list_all res_done rs \<and>
            list_all (\<lambda>j. cs ! j \<noteq> CallNext \<or> rs ! j = done_result) [0..<length cs]) \<and>
         (\<exists>r0 it0. call_method (CallReturn a) it0' = Inr (r0 :: 'v iter_result, it0) \<and> res_done r0)"
proof -
  have ex: "exhausted it1"
  proof (cases c)
    case CallNext
    with assms show ?thesis by (simp add: iter_next_done_exhausted)
  next
    case (CallReturn arg)
    with assms(1) have "it1 = snd (iter_end arg it)" by auto
    then show ?thesis by (simp add: iter_end_exhausted)
  qed
  from run_exhausted [OF ex, of cs]
  obtain rs :: "'v iter_result list" and it2 where r: "run it1 cs = Inr (rs, it2)"
    "length rs = length cs" "\<forall>r \<in> set rs. res_done r"
    "\<forall>j < length cs. cs ! j = CallNext \<longrightarrow> res_value (rs ! j) = None"
    by blast
  have "\<forall>j < length cs. cs ! j \<noteq> CallNext \<or> rs ! j = done_result"
  proof (intro allI impI)
    fix j assume j: "j < length cs"
    show "cs ! j \<noteq> CallNext \<or> rs ! j = done_result"
    proof (cases "cs ! j = CallNext")
      case True
      then have "res_value (rs ! j) = None" using r(4) j by simp
      moreover have "res_done (rs ! j)" using r(2,3) j by simp
      ultimately show ?thesis by (simp add: done_result_eq)
    qed simp
  qed
  then have "list_all (\<lambda>j. cs ! j \<noteq> CallNext \<or> rs ! j = done_result) [0..<length cs]"
    by (simp add: list_all_iff)
  moreover have "list_all res_done rs" using r(3) by (simp add: list_all_iff)
  moreover have "\<exists>r0 it0. call_method (CallReturn a) it0' = Inr (r0 :: 'v iter_result, it0) \<and> res_done r0"
    by (cases a) (simp_all add: iter_end_def)
  ultimately show ?thesis using r(1,2) by blast
qed

theorem done_is_permanent_witness:
  "call_method CallNext \<lparr>it_x = \<lparr>getShape = [2, 0], isReadOnly = False\<rparr>, it_dims = [1],
        it_writable = False, it_N = NaN, it_FLG = True, it_idx = [Num 0, Null],
        it_indices = [0], it_sh = [2], it_ibuf = [Num 0], it_i = - 1\<rparr> =
     Inr (done_result :: unit iter_result,
          \<lparr>it_x = \<lparr>getShape = [2, 0], isReadOnly = False\<rparr>, it_dims = [1],
        it_writable = False, it_N = NaN, it_FLG = True, it_idx = [Num 0, Null],
        it_indices = [0], it_sh = [2], it_ibuf = [Num 0], it_i = 0\<rparr>) \<and>
   (\<exists>rs it2. run \<lparr>it_x = \<lparr>getShape = [2, 0], isReadOnly = False\<rparr>, it_dims = [1],
        it_writable = False, it_N = NaN, it_FLG = True, it_idx = [Num 0, Null],
        it_indices = [0], it_sh = [2], it_ibuf = [Num 0], it_i = 0\<rparr>
        [CallNext, CallReturn (Some ()), CallNext] = Inr (rs :: unit iter_result list, it2) \<and>
      length rs = 3 \<and> list_all res_done rs \<and> rs ! 0 = done_result \<and> rs ! 2 = done_result)"
proof -
  let ?it = "\<lparr>it_x = \<lparr>getShape = [2, 0], isReadOnly = False\<rparr>, it_dims = [1],
        it_writable = False, it_N = NaN, it_FLG = True, it_idx = [Num 0, Null],
        it_indices = [0], it_sh = [2], it_ibuf = [Num 0], it_i = - 1\<rparr>"
  let ?it1 = "\<lparr>it_x = \<lparr>getShape = [2, 0], isReadOnly = False\<rparr>, it_dims = [1],
        it_writable = False, it_N = NaN, it_FLG = True, it_idx = [Num 0, Null],
        it_indices = [0], it_sh = [2], it_ibuf = [Num 0], it_i = 0\<rparr>"
  let ?cs = "[CallNext, CallReturn (Some ()), CallNext]"
  have h: "call_method CallNext ?it = Inr (done_result :: unit iter_result, ?it1)"
    by code_simp
  have d: "res_done (done_result :: unit iter_result)" by simp
  from done_is_permanent [OF h d, of ?cs, THEN conjunct1]
  obtain rs :: "unit iter_result list" and it2 where r: "run ?it1 ?cs = Inr (rs, it2)"
    "length rs = length ?cs" "list_all res_done rs"
    "list_all (\<lambda>j. ?cs ! j \<noteq> CallNext \<or> rs ! j = done_result) [0..<length ?cs]"
    by blast
  have l: "length rs = 3" using r(2) by simp
  have u: "[0..<length ?cs] = [0, 1, 2]" by code_simp
  have "rs ! 0 = done_result" "rs ! 2 = done_result" using r(4) unfolding u by simp_all
  with r(1,3) l have "\<exists>rs it2. run ?it1 ?cs = Inr (rs :: unit iter_result list, it2) \<and>
      length rs = 3 \<and> list_all res_done rs \<and> rs ! 0 = done_result \<and> rs ! 2 = done_result"
    by blast
  with h show ?thesis by blast
qed

lemma normalizeIndex_valid:
  "- int n \<le> d \<Longrightarrow> d < int n \<Longrightarrow> normalizeIndex d (int n - 1) \<noteq> - 1"
  by (auto simp: normalizeIndex_def Let_def)

lemma valid_dims_setup:
  assumes "valid_dims (getShape x) ds0"
  shows "setup_iterator x ds0 w = Inr (initial x (normalized (length (getShape x)) ds0) w)"
proof -
  let ?n = "length (getShape x)"
  from assms have len: "length ds0 < ?n"
    and rng: "\<forall>d \<in> set ds0. - int ?n \<le> d \<and> d < int ?n"
    and sw: "sorted_wrt (<) (normalized ?n ds0)"
    by (simp_all add: valid_dims_def)
  have "\<forall>d \<in> set ds0. normalizeIndex d (int ?n - 1) \<noteq> - 1"
    using rng normalizeIndex_valid by blast
  then show ?thesis
    using len sw by (simp add: setup_iterator_eq Let_def strict_sorted_iff)
qed



text \<open>
  Claim C9 (no failure after construction). Every sequence of calls of \<^verbatim>\<open>next\<close> and
  \<^verbatim>\<open>return\<close> on a constructed iterator runs to its end without an exception: the branches of
  \<^verbatim>\<open>take\<close>, \<^verbatim>\<open>put\<close>, \<^verbatim>\<open>args2multislice\<close>, \<^verbatim>\<open>nextCartesianIndex\<close> and \<^verbatim>\<open>slice\<close> that raise are
  never taken. A construction that fails does so with one of the nine validation errors,
  never with an exception of a helper.
\<close>

theorem iteration_never_fails:
  "(\<forall>it. nditerStacks x dims options = Inr it \<longrightarrow>
      (\<exists>rs it'. run it cs = Inr (rs :: 'v iter_result list, it'))) \<and>
   (\<forall>e. nditerStacks x dims options = Inl e \<longrightarrow>
      e \<in> {NotNdarrayError, NotIntegerArrayError, OptionsTypeError, ReadonlyOptionTypeError,
           ReadOnlyWriteError, InsufficientDimsError, DimRangeError, OrderingError,
           UniquenessError})"
proof (intro conjI allI impI)
  fix it assume a: "nditerStacks x dims options = Inr it"
  from nditerStacks_Inr_args [OF a] obtain xa ds0 where "x = Ndarray xa"
    "dims = JSArray (map JInt ds0)" by blast
  with a have "nditerStacks (Ndarray xa) (JSArray (map JInt ds0)) options = Inr it" by simp
  from constructed_run_cursor [OF this, of cs]
  show "\<exists>rs it'. run it cs = Inr (rs :: 'v iter_result list, it')" by blast
next
  fix e assume a: "nditerStacks x dims options = Inl e"
  show "e \<in> {NotNdarrayError, NotIntegerArrayError, OptionsTypeError, ReadonlyOptionTypeError,
           ReadOnlyWriteError, InsufficientDimsError, DimRangeError, OrderingError,
           UniquenessError}"
  proof (cases x)
    case NotNdarray
    with a show ?thesis by (simp add: nditerStacks_def)
  next
    case (Ndarray xa)
    show ?thesis
    proof (cases "isIntegerArray dims")
      case False
      with a Ndarray show ?thesis by (simp add: nditerStacks_def)
    next
      case True
      then obtain ds0 where "dims = JSArray (map JInt ds0)"
        unfolding isIntegerArray_iff by blast
      with a Ndarray have "nditerStacks (Ndarray xa) (JSArray (map JInt ds0)) options = Inl e"
        by simp
      then show ?thesis
        using check_options_errors [of xa options]
        by (auto simp: nditerStacks_eq setup_iterator_eq Let_def split: if_splits sum.splits)
    qed
  qed
qed

theorem iteration_never_fails_witness:
  "nditerStacks (Ndarray \<lparr>getShape = [3, 2], isReadOnly = False\<rparr>) (JSArray [JInt 0]) None =
     Inr \<lparr>it_x = \<lparr>getShape = [3, 2], isReadOnly = False\<rparr>, it_dims = [0],
          it_writable = False, it_N = Fin 2, it_FLG = False, it_idx = [Null, Num 0],
          it_indices = [1], it_sh = [2], it_ibuf = [Num 0], it_i = - 1\<rparr> \<and>
   (\<exists>rs it'. run \<lparr>it_x = \<lparr>getShape = [3, 2], isReadOnly = False\<rparr>, it_dims = [0],
          it_writable = False, it_N = Fin 2, it_FLG = False, it_idx = [Null, Num 0],
          it_indices = [1], it_sh = [2], it_ibuf = [Num 0], it_i = - 1\<rparr>
        [CallNext, CallNext, CallNext, CallReturn None, CallNext] =
      Inr (rs :: unit iter_result list, it'))"
proof -
  let ?it = "\<lparr>it_x = \<lparr>getShape = [3, 2], isReadOnly = False\<rparr>, it_dims = [0],
          it_writable = False, it_N = Fin 2, it_FLG = False, it_idx = [Null, Num 0],
          it_indices = [1], it_sh = [2], it_ibuf = [Num 0], it_i = - 1\<rparr>"
  have h: "nditerStacks (Ndarray \<lparr>getShape = [3, 2], isReadOnly = False\<rparr>) (JSArray [JInt 0]) None =
      Inr ?it"
    by code_simp
  from iteration_never_fails [of "Ndarray \<lparr>getShape = [3, 2], isReadOnly = False\<rparr>"
      "JSArray [JInt 0]" None
      "[CallNext, CallNext, CallNext, CallReturn None, CallNext :: unit call]",
      THEN conjunct1] h
  have "\<exists>rs it'. run ?it [CallNext, CallNext, CallNext, CallReturn None, CallNext] =
      Inr (rs :: unit iter_result list, it')"
    by blast
  with h show ?thesis by blast
qed

lemma total_steps_no_dims: "shp \<noteq> [] \<Longrightarrow> total_steps shp [] = numel shp"
  by (simp add: total_steps_def free_dims_def numel_def map_nth)

text \<open>
  Claim C10 (empty dimension list), as amended. An empty dimension list is not accepted
  at the public interface: for every ndarray and every third argument the construction
  fails with the invalid-argument error of the second argument, because the guard
  \<^verbatim>\<open>isIntegerArray\<close> does not hold of an array of length zero. Only the setup behind that
  guard treats an empty list as leaving every dimension free: on an array with at least one
  dimension it would succeed with all dimensions as free dimensions and \<open>numel\<close> steps.
\<close>

theorem empty_dims_rejected:
  "nditerStacks (Ndarray x) (JSArray []) options = Inl NotIntegerArrayError \<and>
   (getShape x \<noteq> [] \<longrightarrow>
      setup_iterator x [] w = Inr (initial x [] w) \<and>
      it_indices (initial x [] w) = [0..<length (getShape x)] \<and>
      total_steps (getShape x) [] = numel (getShape x))"
  by (simp add: nditerStacks_def setup_iterator_eq Let_def normalized_def free_dims_def
        total_steps_no_dims)

theorem empty_dims_rejected_witness:
  "nditerStacks (Ndarray \<lparr>getShape = [2, 3], isReadOnly = False\<rparr>) (JSArray [])
     (Some (PlainObject [])) = Inl NotIntegerArrayError \<and>
   setup_iterator \<lparr>getShape = [2, 3], isReadOnly = False\<rparr> [] False =
     Inr (initial \<lparr>getShape = [2, 3], isReadOnly = False\<rparr> [] False) \<and>
   it_indices (initial \<lparr>getShape = [2, 3], isReadOnly = False\<rparr> [] False) = [0, 1] \<and>
   total_steps [2, 3] [] = 6"
proof -
  let ?x = "\<lparr>getShape = [2, 3], isReadOnly = False\<rparr>"
  note e = empty_dims_rejected [of ?x "Some (PlainObject [])" False]
  have ne: "getShape ?x \<noteq> []" by simp
  have u: "[0..<length (getShape ?x)] = [0, 1]" by code_simp
  have n: "numel (getShape ?x) = 6" by code_simp
  from e [THEN conjunct2] ne
  have "setup_iterator ?x [] False = Inr (initial ?x [] False)"
    "it_indices (initial ?x [] False) = [0..<length (getShape ?x)]"
    "total_steps (getShape ?x) [] = numel (getShape ?x)"
    by blast+
  then have "setup_iterator ?x [] False = Inr (initial ?x [] False)"
    "it_indices (initial ?x [] False) = [0, 1]" "total_steps [2, 3] [] = 6"
    using u n by simp_all
  with e [THEN conjunct1] show ?thesis by blast
qed

theorem empty_dims_accepted_counterexample:
  "nditerStacks (Ndarray \<lparr>getShape = [2, 2], isReadOnly = False\<rparr>) (JSArray []) None =
     Inl NotIntegerArrayError"
  by code_simp

end
